theory Spec2Isabelle
  imports Complex_Main
begin

section \<open>Python values, exceptions and containers\<close>

text \<open>
  The notebook is Python 2 (\<^verbatim>\<open>print result\<close>, kernel \<^verbatim>\<open>python2\<close>). Its floats are
  modelled as \<^typ>\<open>real\<close>: every statement below about a Q value or a probability is a
  statement about the exact arithmetic the floating-point code approximates. Python
  integers are \<^typ>\<open>int\<close>, strings are \<^typ>\<open>string\<close>, a \<^verbatim>\<open>dict\<close> is a map.
  An exception is a value \<open>Inl e\<close>; the state at the moment of a raise is not kept.
\<close>

datatype error = KeyError | ValueError | IndexError

text \<open>\<^verbatim>\<open>xs[i]\<close> on a list or along one axis of an array: a negative index counts from the
  end, an index out of range raises IndexError.\<close>

definition getitem :: "'x list \<Rightarrow> int \<Rightarrow> error + 'x" where
  "getitem xs i =
     (let n = int (length xs); k = (if i < 0 then n + i else i)
      in if 0 \<le> k \<and> k < n then Inr (xs ! nat k) else Inl IndexError)"

text \<open>\<^verbatim>\<open>d[k]\<close> on a dict raises KeyError for a key that is not there.\<close>

definition dict_get :: "('k \<rightharpoonup> 'v) \<Rightarrow> 'k \<Rightarrow> error + 'v" where
  "dict_get d k = (case d k of None \<Rightarrow> Inl KeyError | Some v \<Rightarrow> Inr v)"

text \<open>A list comprehension \<^verbatim>\<open>[f(x) for x in xs]\<close> whose body may raise: the first raise
  ends it.\<close>

fun traverse :: "('x \<Rightarrow> error + 'y) \<Rightarrow> 'x list \<Rightarrow> error + 'y list" where
  "traverse f [] = Inr []"
| "traverse f (x # xs) =
     (case f x of
        Inl e \<Rightarrow> Inl e
      | Inr y \<Rightarrow> (case traverse f xs of Inl e \<Rightarrow> Inl e | Inr ys \<Rightarrow> Inr (y # ys)))"

text \<open>\<^verbatim>\<open>max(items, key=itemgetter(1))\<close>: ValueError on an empty sequence; otherwise the
  first item whose second component is maximal (the running maximum is replaced only by
  a strictly greater item).\<close>

fun max_itemgetter1 :: "('k \<times> real) list \<Rightarrow> error + ('k \<times> real)" where
  "max_itemgetter1 [] = Inl ValueError"
| "max_itemgetter1 (x # xs) =
     Inr (fold (\<lambda>item best. if snd item > snd best then item else best) xs x)"

section \<open>The environment interface\<close>

text \<open>
  \<^verbatim>\<open>ObservableEnvironment\<close>: the four methods the agents call. \<^verbatim>\<open>execute_action\<close> "does
  not have to be deterministic": it reads and advances a hidden world state \<open>'w\<close>, which
  is also where the random source of action selection lives.
\<close>

record ('s, 'a, 'w) ObservableEnvironment =
  get_states :: "'s list"
  get_possible_actions :: "'s \<Rightarrow> 'a list"
  execute_action :: "'s \<Rightarrow> 'a \<Rightarrow> 'w \<Rightarrow> error + (('s \<times> real) \<times> 'w)"
  is_terminal_state :: "'s \<Rightarrow> error + bool"

section \<open>Windy GridWorld\<close>

definition UP :: string where "UP = ''UP''"

definition DOWN :: string where "DOWN = ''DOWN''"

definition LEFT :: string where "LEFT = ''LEFT''"

definition RIGHT :: string where "RIGHT = ''RIGHT''"

record WindyGridWorld =
  rewards :: "real list list"
  wind :: "int list"
  states :: "(int \<times> int) list"
  max_down :: int
  max_right :: int

text \<open>
  \<^verbatim>\<open>WindyGridWorld.__init__\<close>. \<open>rewards\<close> is a two-dimensional array, given as the list
  of its rows (all of one length); \<^verbatim>\<open>n, m = rewards.shape\<close>. An array without rows has a
  one-element shape and the unpacking raises.
\<close>

definition shape :: "real list list \<Rightarrow> error + (int \<times> int)" where
  "shape rs = (case rs of [] \<Rightarrow> Inl ValueError | r # _ \<Rightarrow> Inr (int (length rs), int (length r)))"

definition WindyGridWorld_init :: "real list list \<Rightarrow> int list \<Rightarrow> error + WindyGridWorld" where
  "WindyGridWorld_init rs wnd =
     (case shape rs of
        Inl e \<Rightarrow> Inl e
      | Inr (n, m) \<Rightarrow>
          Inr \<lparr>rewards = rs, wind = wnd,
               states = List.product [0 .. n - 1] [0 .. m - 1],
               max_down = n - 1, max_right = m - 1\<rparr>)"

definition grid_get_states :: "WindyGridWorld \<Rightarrow> (int \<times> int) list" where
  "grid_get_states g = states g"

definition grid_get_possible_actions :: "WindyGridWorld \<Rightarrow> int \<times> int \<Rightarrow> string list" where
  "grid_get_possible_actions g state =
     (case state of (i, j) \<Rightarrow>
        (if i > 0 then [UP] else []) @
        (if i < max_down g then [DOWN] else []) @
        (if j > 0 then [LEFT] else []) @
        (if j < max_right g then [RIGHT] else []))"

text \<open>\<^verbatim>\<open>self.rewards[(i, j)]\<close>: one index per axis.\<close>

definition rewards_at :: "WindyGridWorld \<Rightarrow> int \<Rightarrow> int \<Rightarrow> error + real" where
  "rewards_at g i j =
     (case getitem (rewards g) i of Inl e \<Rightarrow> Inl e | Inr row \<Rightarrow> getitem row j)"

definition grid_execute_action ::
  "WindyGridWorld \<Rightarrow> int \<times> int \<Rightarrow> string \<Rightarrow> error + ((int \<times> int) \<times> real)" where
  "grid_execute_action g state action =
     (case state of (i, j) \<Rightarrow>
        let i = (if action = UP then i - 1 else i);
            i = (if action = DOWN then i + 1 else i);
            j = (if action = LEFT then j - 1 else j);
            j = (if action = RIGHT then j + 1 else j)
        in case getitem (wind g) j of
             Inl e \<Rightarrow> Inl e
           | Inr wj \<Rightarrow>
               let i = i - wj;
                   i = max 0 (min i (max_down g));
                   j = max 0 (min j (max_right g))
               in (case rewards_at g i j of
                     Inl e \<Rightarrow> Inl e
                   | Inr r \<Rightarrow> Inr ((i, j), r - 1)))"

definition grid_is_terminal_state :: "WindyGridWorld \<Rightarrow> int \<times> int \<Rightarrow> error + bool" where
  "grid_is_terminal_state g state =
     (case state of (i, j) \<Rightarrow>
        (case rewards_at g i j of Inl e \<Rightarrow> Inl e | Inr r \<Rightarrow> Inr (r > 0)))"

text \<open>The grid world as an environment object: its transitions ignore the world state.\<close>

definition grid_env :: "WindyGridWorld \<Rightarrow> (int \<times> int, string, 'w) ObservableEnvironment" where
  "grid_env g =
     \<lparr>get_states = grid_get_states g,
      get_possible_actions = grid_get_possible_actions g,
      execute_action = (\<lambda>state action w.
         case grid_execute_action g state action of Inl e \<Rightarrow> Inl e | Inr sr \<Rightarrow> Inr (sr, w)),
      is_terminal_state = grid_is_terminal_state g\<rparr>"

text \<open>The grid the notebook evaluates on: \<^verbatim>\<open>R\<close>, \<^verbatim>\<open>wind\<close>.\<close>

definition R_example :: "real list list" where
  "R_example = [[0, 0, 0, 0, 0, 0], [0, 0, 0, 0, 1, 0], [0, 0, 0, 0, 0, 0]]"

definition wind_example :: "int list" where
  "wind_example = [0, 0, 1, 1, 1, 0]"

section \<open>The interpreter and NumPy\<close>

text \<open>
  Two things the agents use are not code of the notebook and are parameters of the model.
  \<^item> \<open>random_choice actions ps w\<close> is \<^verbatim>\<open>np.random.choice(actions, p=ps)\<close> on NumPy's
    global generator in state \<open>w\<close>: it raises, or returns the drawn action and the
    generator's next state.
  \<^item> \<open>dict_keys ks\<close> is the order in which a Python 2 dict iterates over its keys after
    they were inserted in the order \<open>ks\<close> (hash order, not insertion order).
\<close>

record ('a, 'w) runtime =
  random_choice :: "'a list \<Rightarrow> real list \<Rightarrow> 'w \<Rightarrow> error + ('a \<times> 'w)"
  dict_keys :: "'a list \<Rightarrow> 'a list"

text \<open>\<^verbatim>\<open>{k: v for ...}.items()\<close> for the pairs \<open>kvs\<close> in insertion order: a later pair
  overwrites an earlier one with the same key.\<close>

definition dict_items :: "('a, 'w) runtime \<Rightarrow> ('a \<times> 'v) list \<Rightarrow> ('a \<times> 'v) list" where
  "dict_items rt kvs =
     List.map_filter (\<lambda>k. map_option (Pair k) (map_of (rev kvs) k)) (dict_keys rt (map fst kvs))"

section \<open>The agents\<close>

datatype agent_class = SarsaAgent | QLearningAgent | ExpectedSarsaAgent

text \<open>
  The attributes of an agent object, and its class (the three classes differ in
  \<^verbatim>\<open>_inner_learn\<close> only). \<open>td_updates\<close> is a history variable that is not in the source:
  the keys of the \<^verbatim>\<open>self.Q[(S, A)] += ...\<close> assignments executed so far, oldest first.
  No function below reads it.
\<close>

record ('s, 'a, 'w) agent =
  cls :: agent_class
  env :: "('s, 'a, 'w) ObservableEnvironment"
  discount_factor :: real
  alpha :: real
  epsilon :: real
  Q :: "('s \<times> 'a) \<rightharpoonup> real"
  policy :: "('s \<times> 'a) \<rightharpoonup> real"
  td_updates :: "('s \<times> 'a) list"

text \<open>\<^verbatim>\<open>__init__\<close>: the inner loop over the actions of one state, then the loop over the
  states.\<close>

definition init_actions ::
  "'s \<Rightarrow> 'a list \<Rightarrow> (('s \<times> 'a) \<rightharpoonup> real) \<times> (('s \<times> 'a) \<rightharpoonup> real) \<Rightarrow>
   (('s \<times> 'a) \<rightharpoonup> real) \<times> (('s \<times> 'a) \<rightharpoonup> real)" where
  "init_actions state actions =
     (let num_actions = length actions
      in fold (\<lambda>action (q, p).
           (q((state, action) \<mapsto> 0), p((state, action) \<mapsto> 1 / real num_actions))) actions)"

definition agent_init ::
  "agent_class \<Rightarrow> ('s, 'a, 'w) ObservableEnvironment \<Rightarrow> real \<Rightarrow> real \<Rightarrow> real \<Rightarrow> ('s, 'a, 'w) agent" where
  "agent_init c e df al eps =
     (let (q, p) = fold (\<lambda>state. init_actions state (get_possible_actions e state))
                     (get_states e) (Map.empty, Map.empty)
      in \<lparr>cls = c, env = e, discount_factor = df, alpha = al, epsilon = eps,
          Q = q, policy = p, td_updates = []\<rparr>)"

text \<open>\<^verbatim>\<open>_find_best_action\<close>.\<close>

definition QA_pairs :: "('s, 'a, 'w) agent \<Rightarrow> 's \<Rightarrow> error + ('a \<times> real) list" where
  "QA_pairs ag state =
     traverse (\<lambda>action. case dict_get (Q ag) (state, action) of
                            Inl e \<Rightarrow> Inl e | Inr v \<Rightarrow> Inr (action, v))
       (get_possible_actions (env ag) state)"

definition find_best_action :: "('a, 'w) runtime \<Rightarrow> ('s, 'a, 'w) agent \<Rightarrow> 's \<Rightarrow> error + 'a" where
  "find_best_action rt ag state =
     (case QA_pairs ag state of
        Inl e \<Rightarrow> Inl e
      | Inr QA \<Rightarrow>
          (case max_itemgetter1 (dict_items rt QA) of
             Inl e \<Rightarrow> Inl e
           | Inr item \<Rightarrow> Inr (fst item)))"

text \<open>\<^verbatim>\<open>_choose_action\<close>.\<close>

definition choose_action ::
  "('a, 'w) runtime \<Rightarrow> ('s, 'a, 'w) agent \<Rightarrow> 's \<Rightarrow> 'w \<Rightarrow> error + ('a \<times> 'w)" where
  "choose_action rt ag S w =
     (let actions = get_possible_actions (env ag) S
      in case traverse (\<lambda>A. dict_get (policy ag) (S, A)) actions of
           Inl e \<Rightarrow> Inl e
         | Inr ps \<Rightarrow> random_choice rt actions ps w)"

text \<open>\<^verbatim>\<open>_update_policy\<close>: the body of its loop for one state, and the loop.\<close>

definition update_policy_state ::
  "('a, 'w) runtime \<Rightarrow> ('s, 'a, 'w) agent \<Rightarrow> 's \<Rightarrow> error + ('s, 'a, 'w) agent" where
  "update_policy_state rt ag state =
     (let actions = get_possible_actions (env ag) state;
          num_actions = length actions
      in case find_best_action rt ag state of
           Inl e \<Rightarrow> Inl e
         | Inr best_action \<Rightarrow>
             let p = fold (\<lambda>action p. p((state, action) \<mapsto> epsilon ag / real num_actions))
                       actions (policy ag)
             in (case dict_get p (state, best_action) of
                   Inl e \<Rightarrow> Inl e
                 | Inr v \<Rightarrow> Inr (ag\<lparr>policy := p((state, best_action) \<mapsto> v + (1 - epsilon ag))\<rparr>)))"

fun update_policy_states ::
  "('a, 'w) runtime \<Rightarrow> ('s, 'a, 'w) agent \<Rightarrow> 's list \<Rightarrow> error + ('s, 'a, 'w) agent" where
  "update_policy_states rt ag [] = Inr ag"
| "update_policy_states rt ag (state # rest) =
     (case update_policy_state rt ag state of
        Inl e \<Rightarrow> Inl e
      | Inr ag' \<Rightarrow> update_policy_states rt ag' rest)"

definition update_policy :: "('a, 'w) runtime \<Rightarrow> ('s, 'a, 'w) agent \<Rightarrow> error + ('s, 'a, 'w) agent" where
  "update_policy rt ag = update_policy_states rt ag (get_states (env ag))"

text \<open>
  The assignment \<^verbatim>\<open>self.Q[(S, A)] += self.alpha * (R + self.discount_factor * nxt -
  self.Q[(S, A)])\<close> that ends every \<^verbatim>\<open>_inner_learn\<close>, for \<open>nxt\<close> already evaluated.
\<close>

definition td_assign ::
  "('s, 'a, 'w) agent \<Rightarrow> 's \<times> 'a \<Rightarrow> real \<Rightarrow> real \<Rightarrow> error + ('s, 'a, 'w) agent" where
  "td_assign ag k R nxt =
     (case dict_get (Q ag) k of
        Inl e \<Rightarrow> Inl e
      | Inr q \<Rightarrow>
          Inr (ag\<lparr>Q := (Q ag)(k \<mapsto> q + alpha ag * (R + discount_factor ag * nxt - q)),
                  td_updates := td_updates ag @ [k]\<rparr>))"

text \<open>\<^verbatim>\<open>SarsaAgent._inner_learn\<close>.\<close>

definition sarsa_inner_learn ::
  "('a, 'w) runtime \<Rightarrow> ('s, 'a, 'w) agent \<Rightarrow> 's \<Rightarrow> 'a \<Rightarrow> 'w \<Rightarrow>
   error + (('s \<times> 'a) \<times> ('s, 'a, 'w) agent \<times> 'w)" where
  "sarsa_inner_learn rt ag S A w =
     (case execute_action (env ag) S A w of
        Inl e \<Rightarrow> Inl e
      | Inr ((S_next, R), w1) \<Rightarrow>
          (case choose_action rt ag S_next w1 of
             Inl e \<Rightarrow> Inl e
           | Inr (A_next, w2) \<Rightarrow>
               (case dict_get (Q ag) (S, A) of
                  Inl e \<Rightarrow> Inl e
                | Inr _ \<Rightarrow>
                    (case dict_get (Q ag) (S_next, A_next) of
                       Inl e \<Rightarrow> Inl e
                     | Inr q_next \<Rightarrow>
                         (case td_assign ag (S, A) R q_next of
                            Inl e \<Rightarrow> Inl e
                          | Inr ag' \<Rightarrow> Inr ((S_next, A_next), ag', w2))))))"

text \<open>\<^verbatim>\<open>QLearningAgent._inner_learn\<close>: the parameter \<open>A\<close> is overwritten at once.\<close>

definition qlearning_inner_learn ::
  "('a, 'w) runtime \<Rightarrow> ('s, 'a, 'w) agent \<Rightarrow> 's \<Rightarrow> 'a \<Rightarrow> 'w \<Rightarrow>
   error + (('s \<times> 'a) \<times> ('s, 'a, 'w) agent \<times> 'w)" where
  "qlearning_inner_learn rt ag S A0 w =
     (case choose_action rt ag S w of
        Inl e \<Rightarrow> Inl e
      | Inr (A, w1) \<Rightarrow>
          (case execute_action (env ag) S A w1 of
             Inl e \<Rightarrow> Inl e
           | Inr ((S_next, R), w2) \<Rightarrow>
               (case find_best_action rt ag S_next of
                  Inl e \<Rightarrow> Inl e
                | Inr A_best \<Rightarrow>
                    (case dict_get (Q ag) (S, A) of
                       Inl e \<Rightarrow> Inl e
                     | Inr _ \<Rightarrow>
                         (case dict_get (Q ag) (S_next, A_best) of
                            Inl e \<Rightarrow> Inl e
                          | Inr q_best \<Rightarrow>
                              (case td_assign ag (S, A) R q_best of
                                 Inl e \<Rightarrow> Inl e
                               | Inr ag' \<Rightarrow> Inr ((S_next, A), ag', w2)))))))"

text \<open>\<^verbatim>\<open>ExpectedSarsaAgent._inner_learn\<close>: the loop that accumulates
  \<^verbatim>\<open>expected_next_value\<close>, then the method.\<close>

fun expected_next_value :: "('s, 'a, 'w) agent \<Rightarrow> 's \<Rightarrow> 'a list \<Rightarrow> real \<Rightarrow> error + real" where
  "expected_next_value ag S_next [] acc = Inr acc"
| "expected_next_value ag S_next (action # rest) acc =
     (case dict_get (policy ag) (S_next, action) of
        Inl e \<Rightarrow> Inl e
      | Inr p \<Rightarrow>
          (case dict_get (Q ag) (S_next, action) of
             Inl e \<Rightarrow> Inl e
           | Inr q \<Rightarrow> expected_next_value ag S_next rest (acc + p * q)))"

definition expected_sarsa_inner_learn ::
  "('a, 'w) runtime \<Rightarrow> ('s, 'a, 'w) agent \<Rightarrow> 's \<Rightarrow> 'a \<Rightarrow> 'w \<Rightarrow>
   error + (('s \<times> 'a) \<times> ('s, 'a, 'w) agent \<times> 'w)" where
  "expected_sarsa_inner_learn rt ag S A w =
     (case execute_action (env ag) S A w of
        Inl e \<Rightarrow> Inl e
      | Inr ((S_next, R), w1) \<Rightarrow>
          (case choose_action rt ag S_next w1 of
             Inl e \<Rightarrow> Inl e
           | Inr (A_next, w2) \<Rightarrow>
               (case expected_next_value ag S_next (get_possible_actions (env ag) S_next) 0 of
                  Inl e \<Rightarrow> Inl e
                | Inr ev \<Rightarrow>
                    (case td_assign ag (S, A) R ev of
                       Inl e \<Rightarrow> Inl e
                     | Inr ag' \<Rightarrow> Inr ((S_next, A_next), ag', w2)))))"

text \<open>Method dispatch on the class of the object.\<close>

definition inner_learn ::
  "('a, 'w) runtime \<Rightarrow> ('s, 'a, 'w) agent \<Rightarrow> 's \<Rightarrow> 'a \<Rightarrow> 'w \<Rightarrow>
   error + (('s \<times> 'a) \<times> ('s, 'a, 'w) agent \<times> 'w)" where
  "inner_learn rt ag S A w =
     (case cls ag of
        SarsaAgent \<Rightarrow> sarsa_inner_learn rt ag S A w
      | QLearningAgent \<Rightarrow> qlearning_inner_learn rt ag S A w
      | ExpectedSarsaAgent \<Rightarrow> expected_sarsa_inner_learn rt ag S A w)"

text \<open>
  \<^verbatim>\<open>learn\<close>. \<open>learn_step\<close> is the body of the \<^verbatim>\<open>while\<close> loop: one learning step and the
  policy refresh. The loop may run forever; \<open>episode_loop fuel\<close> runs at most \<open>fuel\<close>
  iterations of the body and is \<open>None\<close> when the state is still not terminal then.
  \<open>learn rt fuel num_samples\<close> gives every episode that much fuel.
\<close>

definition learn_step ::
  "('a, 'w) runtime \<Rightarrow> ('s, 'a, 'w) agent \<Rightarrow> 's \<Rightarrow> 'a \<Rightarrow> 'w \<Rightarrow>
   error + (('s \<times> 'a) \<times> ('s, 'a, 'w) agent \<times> 'w)" where
  "learn_step rt ag S A w =
     (case inner_learn rt ag S A w of
        Inl e \<Rightarrow> Inl e
      | Inr (SA, ag1, w1) \<Rightarrow>
          (case update_policy rt ag1 of
             Inl e \<Rightarrow> Inl e
           | Inr ag2 \<Rightarrow> Inr (SA, ag2, w1)))"

fun episode_loop ::
  "('a, 'w) runtime \<Rightarrow> nat \<Rightarrow> ('s, 'a, 'w) agent \<Rightarrow> 's \<Rightarrow> 'a \<Rightarrow> 'w \<Rightarrow>
   (error + (('s, 'a, 'w) agent \<times> 'w)) option" where
  "episode_loop rt 0 ag S A w =
     (case is_terminal_state (env ag) S of
        Inl e \<Rightarrow> Some (Inl e)
      | Inr True \<Rightarrow> Some (Inr (ag, w))
      | Inr False \<Rightarrow> None)"
| "episode_loop rt (Suc fuel) ag S A w =
     (case is_terminal_state (env ag) S of
        Inl e \<Rightarrow> Some (Inl e)
      | Inr True \<Rightarrow> Some (Inr (ag, w))
      | Inr False \<Rightarrow>
          (case learn_step rt ag S A w of
             Inl e \<Rightarrow> Some (Inl e)
           | Inr ((S', A'), ag', w') \<Rightarrow> episode_loop rt fuel ag' S' A' w'))"

fun learn ::
  "('a, 'w) runtime \<Rightarrow> nat \<Rightarrow> nat \<Rightarrow> 's \<Rightarrow> ('s, 'a, 'w) agent \<Rightarrow> 'w \<Rightarrow>
   (error + (('s, 'a, 'w) agent \<times> 'w)) option" where
  "learn rt fuel 0 initial_state ag w = Some (Inr (ag, w))"
| "learn rt fuel (Suc num_samples) initial_state ag w =
     (case choose_action rt ag initial_state w of
        Inl e \<Rightarrow> Some (Inl e)
      | Inr (A, w1) \<Rightarrow>
          (case episode_loop rt fuel ag initial_state A w1 of
             None \<Rightarrow> None
           | Some (Inl e) \<Rightarrow> Some (Inl e)
           | Some (Inr (ag', w2)) \<Rightarrow> learn rt fuel num_samples initial_state ag' w2))"

text \<open>A caller that calls \<^verbatim>\<open>learn(num_samples, initial_state)\<close> several times on one
  agent, as \<^verbatim>\<open>evaluate_agent\<close> does.\<close>

fun learn_calls ::
  "('a, 'w) runtime \<Rightarrow> nat \<Rightarrow> (nat \<times> 's) list \<Rightarrow> ('s, 'a, 'w) agent \<Rightarrow> 'w \<Rightarrow>
   (error + (('s, 'a, 'w) agent \<times> 'w)) option" where
  "learn_calls rt fuel [] ag w = Some (Inr (ag, w))"
| "learn_calls rt fuel ((num_samples, initial_state) # calls) ag w =
     (case learn rt fuel num_samples initial_state ag w of
        None \<Rightarrow> None
      | Some (Inl e) \<Rightarrow> Some (Inl e)
      | Some (Inr (ag', w')) \<Rightarrow> learn_calls rt fuel calls ag' w')"

section \<open>Vocabulary of the statements\<close>

text \<open>
  These definitions are not code of the notebook; the theorems below are stated with
  them. \<open>greedy_policy ag s best\<close> is the policy table of \<open>ag\<close> after the entries of
  state \<open>s\<close> were overwritten with the epsilon-greedy values for the action \<open>best\<close>.
  \<open>first_argmax rt ag s best\<close>: among the legal actions of \<open>s\<close>, in the order in which the
  dict of \<^verbatim>\<open>_find_best_action\<close> iterates over them, \<open>best\<close> is the first one whose Q value
  is maximal.
\<close>

definition greedy_policy ::
  "('s, 'a, 'w) agent \<Rightarrow> 's \<Rightarrow> 'a \<Rightarrow> ('s \<times> 'a) \<rightharpoonup> real" where
  "greedy_policy ag s best =
     (\<lambda>k. if fst k = s \<and> snd k \<in> set (get_possible_actions (env ag) s)
          then Some (if snd k = best
                     then epsilon ag / real (length (get_possible_actions (env ag) s)) + (1 - epsilon ag)
                     else epsilon ag / real (length (get_possible_actions (env ag) s)))
          else policy ag k)"

definition first_argmax :: "('a, 'w) runtime \<Rightarrow> ('s, 'a, 'w) agent \<Rightarrow> 's \<Rightarrow> 'a \<Rightarrow> bool" where
  "first_argmax rt ag s best =
     (\<exists>ys zs qb.
        dict_keys rt (get_possible_actions (env ag) s) = ys @ best # zs \<and>
        Q ag (s, best) = Some qb \<and>
        (\<forall>a\<in>set ys. \<exists>q. Q ag (s, a) = Some q \<and> q < qb) \<and>
        (\<forall>a\<in>set zs. \<exists>q. Q ag (s, a) = Some q \<and> q \<le> qb))"

text \<open>\<open>distribution_at ag s\<close>: the probabilities \<^verbatim>\<open>ps\<close> that \<^verbatim>\<open>_choose_action\<close> reads from the
  policy table for state \<open>s\<close> are all there, each lies in \<open>[0, 1]\<close>, and they sum to 1.\<close>

definition distribution_at :: "('s, 'a, 'w) agent \<Rightarrow> 's \<Rightarrow> bool" where
  "distribution_at ag s =
     (case traverse (\<lambda>a. dict_get (policy ag) (s, a)) (get_possible_actions (env ag) s) of
        Inl e \<Rightarrow> False
      | Inr ps \<Rightarrow> list_all (\<lambda>p. 0 \<le> p \<and> p \<le> 1) ps \<and> sum_list ps = 1)"

section \<open>Concrete inputs\<close>

text \<open>
  A 2 x 2 grid without wind whose reward is in the corner \<open>(1, 1)\<close>, and a deterministic
  stand-in for the interpreter: the \<open>w\<close>-th draw takes the action at index
  \<open>w mod len(actions)\<close> (and raises on no actions, as NumPy does), and a dict iterates in
  insertion order.
\<close>

definition demo_grid :: WindyGridWorld where
  "demo_grid =
     \<lparr>rewards = [[0, 0], [0, 1]], wind = [0, 0],
      states = [(0, 0), (0, 1), (1, 0), (1, 1)], max_down = 1, max_right = 1\<rparr>"

definition demo_env :: "(int \<times> int, string, nat) ObservableEnvironment" where
  "demo_env = grid_env demo_grid"

definition demo_rt :: "(string, nat) runtime" where
  "demo_rt =
     \<lparr>random_choice = (\<lambda>actions ps w.
        if actions = [] then Inl ValueError
        else Inr (actions ! (w mod length actions), Suc w)),
      dict_keys = remdups\<rparr>"

definition demo_agent :: "agent_class \<Rightarrow> (int \<times> int, string, nat) agent" where
  "demo_agent c = agent_init c demo_env 1 (1/2) (1/10)"

text \<open>The Expected SARSA agent of the small run with \<^verbatim>\<open>Q[((1, 0), "UP")] = 4\<close>.\<close>

definition demo_agent_4 :: "(int \<times> int, string, nat) agent" where
  "demo_agent_4 =
     (demo_agent ExpectedSarsaAgent)\<lparr>Q := (Q (demo_agent ExpectedSarsaAgent))(((1, 0), UP) \<mapsto> 4)\<rparr>"


text \<open>
  An environment whose only transition ends in a terminal state without legal actions
  (the interface asks for a non-empty action list at non-terminal states only).
\<close>

definition dead_end_env :: "(nat, string, nat) ObservableEnvironment" where
  "dead_end_env =
     \<lparr>get_states = [0, 1],
      get_possible_actions = (\<lambda>s. if s = 0 then [''GO''] else []),
      execute_action = (\<lambda>s a w. Inr ((1, 0), w)),
      is_terminal_state = (\<lambda>s. Inr (s = 1))\<rparr>"

definition dead_end_agent :: "agent_class \<Rightarrow> (nat, string, nat) agent" where
  "dead_end_agent c = agent_init c dead_end_env 1 (1/2) (1/10)"

section \<open>Containers\<close>

lemma traverse_pairs:
  "traverse (\<lambda>a. case dict_get m (s, a) of Inl e \<Rightarrow> Inl e | Inr v \<Rightarrow> Inr (a, v)) xs = Inr kvs \<Longrightarrow>
   map fst kvs = xs \<and> (\<forall>(a, v)\<in>set kvs. m (s, a) = Some v)"
  by (induction xs arbitrary: kvs) (auto simp: dict_get_def split: sum.splits option.splits)

lemma traverse_map:
  "(\<And>x. x \<in> set xs \<Longrightarrow> f x = Inr (g x)) \<Longrightarrow> traverse f xs = Inr (map g xs)"
  by (induction xs) auto

lemma map_of_rev_functional:
  assumes "\<And>a v. (a, v) \<in> set kvs \<Longrightarrow> m a = Some v" and "k \<in> set (map fst kvs)"
  shows "map_of (rev kvs) k = m k"
proof -
  from assms(2) have "k \<in> fst ` set (rev kvs)" by simp
  then obtain v where v: "map_of (rev kvs) k = Some v"
    by (metis map_of_eq_None_iff not_Some_eq)
  then have "(k, v) \<in> set kvs" using map_of_SomeD by fastforce
  with assms(1) v show ?thesis by simp
qed

lemma map_filter_total:
  assumes "\<And>k. k \<in> set ks \<Longrightarrow> \<exists>v. g k = Some v"
  shows "map fst (List.map_filter (\<lambda>k. map_option (Pair k) (g k)) ks) = ks"
    and "\<And>a v. (a, v) \<in> set (List.map_filter (\<lambda>k. map_option (Pair k) (g k)) ks) \<Longrightarrow> g a = Some v"
  using assms by (induction ks) (auto simp: List.map_filter_simps split: option.splits)

lemma dict_items_functional:
  assumes keys: "set (dict_keys rt (map fst kvs)) = set (map fst kvs)"
    and func: "\<And>a v. (a, v) \<in> set kvs \<Longrightarrow> m a = Some v"
  shows "map fst (dict_items rt kvs) = dict_keys rt (map fst kvs)"
    and "\<And>a v. (a, v) \<in> set (dict_items rt kvs) \<Longrightarrow> m a = Some v \<and> a \<in> set (map fst kvs)"
proof -
  have tot: "\<And>k. k \<in> set (dict_keys rt (map fst kvs)) \<Longrightarrow> \<exists>v. map_of (rev kvs) k = Some v"
  proof -
    fix k assume "k \<in> set (dict_keys rt (map fst kvs))"
    with keys have k: "k \<in> set (map fst kvs)" by simp
    then obtain v where "(k, v) \<in> set kvs" by auto
    with func have "m k = Some v" by simp
    with map_of_rev_functional [of kvs m k] func k show "\<exists>v. map_of (rev kvs) k = Some v" by simp
  qed
  show "map fst (dict_items rt kvs) = dict_keys rt (map fst kvs)"
    unfolding dict_items_def by (rule map_filter_total(1) [OF tot])
  fix a v assume av: "(a, v) \<in> set (dict_items rt kvs)"
  have 1: "map_of (rev kvs) a = Some v"
    using map_filter_total(2) [where g = "map_of (rev kvs)" and ks = "dict_keys rt (map fst kvs)", OF tot]
      av [unfolded dict_items_def] by blast
  then have "(a, v) \<in> set kvs" using map_of_SomeD by fastforce
  then show "m a = Some v \<and> a \<in> set (map fst kvs)" using func by force
qed

lemma fold_max_first:
  "fold (\<lambda>item best. if snd item > snd best then item else best) xs b = (r :: 'k \<times> real) \<Longrightarrow>
   (r = b \<and> (\<forall>y\<in>set xs. snd y \<le> snd b)) \<or>
   (\<exists>ys zs. xs = ys @ r # zs \<and> snd b < snd r \<and> (\<forall>y\<in>set ys. snd y < snd r) \<and> (\<forall>y\<in>set zs. snd y \<le> snd r))"
proof (induction xs arbitrary: b)
  case Nil
  then show ?case by simp
next
  case (Cons x xs)
  let ?b = "if snd x > snd b then x else b"
  from Cons.prems have f: "fold (\<lambda>item best. if snd item > snd best then item else best) xs ?b = r"
    by simp
  from Cons.IH [OF f] show ?case
  proof
    assume a: "r = ?b \<and> (\<forall>y\<in>set xs. snd y \<le> snd ?b)"
    show ?thesis
    proof (cases "snd x > snd b")
      case True
      with a have "x # xs = [] @ r # xs \<and> snd b < snd r \<and> (\<forall>y\<in>set xs. snd y \<le> snd r)" by simp
      then show ?thesis by (metis empty_iff list.set(1))
    next
      case False
      with a show ?thesis by auto
    qed
  next
    assume "\<exists>ys zs. xs = ys @ r # zs \<and> snd ?b < snd r \<and> (\<forall>y\<in>set ys. snd y < snd r) \<and> (\<forall>y\<in>set zs. snd y \<le> snd r)"
    then obtain ys zs where d: "xs = ys @ r # zs" "snd ?b < snd r" "\<forall>y\<in>set ys. snd y < snd r" "\<forall>y\<in>set zs. snd y \<le> snd r"
      by blast
    have "x # xs = (x # ys) @ r # zs" using d(1) by simp
    moreover have "snd b < snd r" "snd x < snd r" using d(2) by (auto split: if_splits)
    ultimately show ?thesis using d(3,4) by (metis set_ConsD)
  qed
qed

lemma max_itemgetter1_first:
  assumes "max_itemgetter1 xs = Inr r"
  shows "\<exists>ys zs. xs = ys @ r # zs \<and> (\<forall>y\<in>set ys. snd y < snd r) \<and> (\<forall>y\<in>set zs. snd y \<le> snd r)"
proof (cases xs)
  case Nil
  with assms show ?thesis by simp
next
  case (Cons x xs')
  with assms have "fold (\<lambda>item best. if snd item > snd best then item else best) xs' x = r" by simp
  from fold_max_first [OF this] show ?thesis
  proof
    assume "r = x \<and> (\<forall>y\<in>set xs'. snd y \<le> snd x)"
    then have "xs = [] @ r # xs' \<and> (\<forall>y\<in>set xs'. snd y \<le> snd r)" using Cons by simp
    then show ?thesis by (metis empty_iff list.set(1))
  next
    assume "\<exists>ys zs. xs' = ys @ r # zs \<and> snd x < snd r \<and> (\<forall>y\<in>set ys. snd y < snd r) \<and> (\<forall>y\<in>set zs. snd y \<le> snd r)"
    then obtain ys zs where d: "xs' = ys @ r # zs" "snd x < snd r" "\<forall>y\<in>set ys. snd y < snd r" "\<forall>y\<in>set zs. snd y \<le> snd r"
      by blast
    have "xs = (x # ys) @ r # zs" using d(1) Cons by simp
    then show ?thesis using d(2,3,4) by (metis set_ConsD)
  qed
qed

lemma sum_list_const: "sum_list (map (\<lambda>a. c) xs) = real (length xs) * (c :: real)"
  by (induction xs) (auto simp: algebra_simps)

lemma sum_list_one_hot:
  "distinct xs \<Longrightarrow> b \<in> set xs \<Longrightarrow>
   sum_list (map (\<lambda>a. if a = b then c + d else c) xs) = real (length xs) * c + (d :: real)"
proof (induction xs)
  case Nil
  then show ?case by simp
next
  case (Cons x xs)
  show ?case
  proof (cases "x = b")
    case True
    with Cons.prems have "b \<notin> set xs" by simp
    then have "map (\<lambda>a. if a = b then c + d else c) xs = map (\<lambda>a. c) xs" by (intro map_cong) auto
    then have "sum_list (map (\<lambda>a. if a = b then c + d else c) xs) = real (length xs) * c"
      by (simp only: sum_list_const)
    with True show ?thesis by (simp add: algebra_simps)
  next
    case False
    with Cons show ?thesis by (simp add: algebra_simps)
  qed
qed


section \<open>The grid world\<close>

lemma shape_Inr: "shape rs = Inr (n, m) \<Longrightarrow> n = int (length rs) \<and> 1 \<le> n \<and> 0 \<le> m"
  by (auto simp: shape_def split: list.splits)

lemma init_fields:
  assumes "WindyGridWorld_init rs wnd = Inr g" and "shape rs = Inr (n, m)"
  shows "max_down g = n - 1" and "max_right g = m - 1"
    and "states g = List.product [0 .. n - 1] [0 .. m - 1]" and "rewards g = rs"
  using assms by (auto simp: WindyGridWorld_init_def)

lemma grid_states_set:
  assumes "WindyGridWorld_init rs wnd = Inr g" and "shape rs = Inr (n, m)"
  shows "set (grid_get_states g) = {(i, j). 0 \<le> i \<and> i \<le> max_down g \<and> 0 \<le> j \<and> j \<le> max_right g}"
  using assms by (auto simp: WindyGridWorld_init_def grid_get_states_def)

lemma grid_actions_nonempty:
  assumes "0 \<le> i" "i \<le> max_down g" "0 \<le> j" "j \<le> max_right g"
    and "1 \<le> max_down g \<or> 1 \<le> max_right g"
  shows "grid_get_possible_actions g (i, j) \<noteq> []"
  using assms by (auto simp: grid_get_possible_actions_def)

lemma grid_actions_distinct: "distinct (grid_get_possible_actions g state)"
  by (cases state) (simp add: grid_get_possible_actions_def UP_def DOWN_def LEFT_def RIGHT_def)

lemma grid_actions_ignore_rewards:
  "grid_get_possible_actions (g\<lparr>rewards := rs'\<rparr>) state = grid_get_possible_actions g state"
  by (simp add: grid_get_possible_actions_def)

lemma grid_successor_actions_nonempty:
  assumes ex: "grid_execute_action g state action = Inr (s', r)"
    and md: "0 \<le> max_down g" and mr: "- 1 \<le> max_right g"
    and big: "1 \<le> max_down g \<or> 1 \<le> max_right g"
  shows "grid_get_possible_actions g s' \<noteq> []"
proof -
  obtain i' j' where s': "s' = (i', j')" by (cases s')
  have "\<exists>a b. i' = max 0 (min a (max_down g)) \<and> j' = max 0 (min b (max_right g))"
    using ex unfolding grid_execute_action_def Let_def s'
    by (auto split: prod.splits sum.splits split del: if_split)
  then obtain a b where ij: "i' = max 0 (min a (max_down g))" "j' = max 0 (min b (max_right g))"
    by blast
  have i: "0 \<le> i' \<and> i' \<le> max_down g" using ij(1) md by auto
  have j: "0 \<le> j'" using ij(2) by auto
  show ?thesis
  proof (cases "1 \<le> max_down g")
    case True
    with i have "i' > 0 \<or> i' < max_down g" by auto
    then show ?thesis unfolding s' by (auto simp: grid_get_possible_actions_def)
  next
    case False
    with big have "1 \<le> max_right g" by simp
    then have "0 \<le> j' \<and> j' \<le> max_right g" using ij(2) by auto
    with \<open>1 \<le> max_right g\<close> have "j' > 0 \<or> j' < max_right g" by auto
    then show ?thesis unfolding s' by (auto simp: grid_get_possible_actions_def)
  qed
qed

lemma action_names_distinct [simp]:
  "UP \<noteq> DOWN" "UP \<noteq> LEFT" "UP \<noteq> RIGHT" "DOWN \<noteq> LEFT" "DOWN \<noteq> RIGHT" "LEFT \<noteq> RIGHT"
  "DOWN \<noteq> UP" "LEFT \<noteq> UP" "RIGHT \<noteq> UP" "LEFT \<noteq> DOWN" "RIGHT \<noteq> DOWN" "RIGHT \<noteq> LEFT"
  by (simp_all add: UP_def DOWN_def LEFT_def RIGHT_def)

section \<open>Construction\<close>

lemma init_actions_eq:
  "init_actions s acts (q, p) =
     ((\<lambda>k. if fst k = s \<and> snd k \<in> set acts then Some 0 else q k),
      (\<lambda>k. if fst k = s \<and> snd k \<in> set acts then Some (1 / real (length acts)) else p k))"
proof -
  have "fold (\<lambda>action (q, p). (q((s, action) \<mapsto> 0), p((s, action) \<mapsto> c))) acts (q, p) =
     ((\<lambda>k. if fst k = s \<and> snd k \<in> set acts then Some 0 else q k),
      (\<lambda>k. if fst k = s \<and> snd k \<in> set acts then Some c else p k))" for c :: real
    by (induction acts arbitrary: q p) (auto simp: fun_eq_iff)
  then show ?thesis by (simp add: init_actions_def Let_def)
qed

lemma init_fold_eq:
  "fold (\<lambda>state. init_actions state (acts state)) sts (q, p) =
     ((\<lambda>k. if fst k \<in> set sts \<and> snd k \<in> set (acts (fst k)) then Some 0 else q k),
      (\<lambda>k. if fst k \<in> set sts \<and> snd k \<in> set (acts (fst k))
           then Some (1 / real (length (acts (fst k)))) else p k))"
  by (induction sts arbitrary: q p) (auto simp: init_actions_eq fun_eq_iff)

lemma agent_init_fields:
  "cls (agent_init c e df al eps) = c"
  "env (agent_init c e df al eps) = e"
  "discount_factor (agent_init c e df al eps) = df"
  "alpha (agent_init c e df al eps) = al"
  "epsilon (agent_init c e df al eps) = eps"
  "td_updates (agent_init c e df al eps) = []"
  "Q (agent_init c e df al eps) =
     (\<lambda>k. if fst k \<in> set (get_states e) \<and> snd k \<in> set (get_possible_actions e (fst k))
          then Some 0 else None)"
  "policy (agent_init c e df al eps) =
     (\<lambda>k. if fst k \<in> set (get_states e) \<and> snd k \<in> set (get_possible_actions e (fst k))
          then Some (1 / real (length (get_possible_actions e (fst k)))) else None)"
  by (simp_all add: agent_init_def init_fold_eq)

lemma agent_init_domains:
  "dom (Q (agent_init c e df al eps)) =
     {(s, a). s \<in> set (get_states e) \<and> a \<in> set (get_possible_actions e s)}"
  "dom (policy (agent_init c e df al eps)) =
     {(s, a). s \<in> set (get_states e) \<and> a \<in> set (get_possible_actions e s)}"
  by (auto simp: agent_init_fields split: if_splits)

section \<open>The greedy action and the policy refresh\<close>

lemma QA_pairs_Inr:
  assumes "QA_pairs ag s = Inr QA"
  shows "map fst QA = get_possible_actions (env ag) s"
    and "\<And>a v. (a, v) \<in> set QA \<Longrightarrow> Q ag (s, a) = Some v"
  using traverse_pairs [OF assms [unfolded QA_pairs_def]] by auto

lemma find_best_action_first_max:
  assumes keys: "\<And>ks. set (dict_keys rt ks) = set ks"
    and fb: "find_best_action rt ag s = Inr best"
  shows "\<exists>ys zs qb. dict_keys rt (get_possible_actions (env ag) s) = ys @ best # zs \<and>
           Q ag (s, best) = Some qb \<and>
           (\<forall>a\<in>set ys. \<exists>q. Q ag (s, a) = Some q \<and> q < qb) \<and>
           (\<forall>a\<in>set zs. \<exists>q. Q ag (s, a) = Some q \<and> q \<le> qb)"
proof -
  from fb obtain QA item where qa: "QA_pairs ag s = Inr QA"
    and mx: "max_itemgetter1 (dict_items rt QA) = Inr item" and best: "best = fst item"
    by (auto simp: find_best_action_def split: sum.splits)
  let ?m = "\<lambda>a. Q ag (s, a)"
  note qp = QA_pairs_Inr [OF qa]
  have fst_items: "map fst (dict_items rt QA) = dict_keys rt (get_possible_actions (env ag) s)"
    using dict_items_functional(1) [of rt QA ?m] keys qp by simp
  have val: "\<And>a v. (a, v) \<in> set (dict_items rt QA) \<Longrightarrow> Q ag (s, a) = Some v"
    using dict_items_functional(2) [of rt QA ?m] keys qp by blast
  from max_itemgetter1_first [OF mx] obtain is1 is2 where
    d: "dict_items rt QA = is1 @ item # is2" "\<forall>y\<in>set is1. snd y < snd item" "\<forall>y\<in>set is2. snd y \<le> snd item"
    by blast
  have "dict_keys rt (get_possible_actions (env ag) s) = map fst is1 @ best # map fst is2"
    using fst_items d(1) best by simp
  moreover have "Q ag (s, best) = Some (snd item)"
    using val [of "fst item" "snd item"] d(1) best by simp
  moreover have "\<forall>a\<in>set (map fst is1). \<exists>q. Q ag (s, a) = Some q \<and> q < snd item"
  proof
    fix a assume "a \<in> set (map fst is1)"
    then obtain y where y: "y \<in> set is1" "a = fst y" by auto
    then have "(a, snd y) \<in> set (dict_items rt QA)" using d(1) by simp
    from val [OF this] d(2) y show "\<exists>q. Q ag (s, a) = Some q \<and> q < snd item" by simp
  qed
  moreover have "\<forall>a\<in>set (map fst is2). \<exists>q. Q ag (s, a) = Some q \<and> q \<le> snd item"
  proof
    fix a assume "a \<in> set (map fst is2)"
    then obtain y where y: "y \<in> set is2" "a = fst y" by auto
    then have "(a, snd y) \<in> set (dict_items rt QA)" using d(1) by simp
    from val [OF this] d(3) y show "\<exists>q. Q ag (s, a) = Some q \<and> q \<le> snd item" by simp
  qed
  ultimately show ?thesis by blast
qed

lemma find_best_action_argmax:
  assumes keys: "\<And>ks. set (dict_keys rt ks) = set ks"
    and fb: "find_best_action rt ag s = Inr best"
  shows "best \<in> set (get_possible_actions (env ag) s)"
    and "\<exists>qb. Q ag (s, best) = Some qb \<and>
           (\<forall>a\<in>set (get_possible_actions (env ag) s). \<exists>q. Q ag (s, a) = Some q \<and> q \<le> qb)"
proof -
  from find_best_action_first_max [OF keys fb] obtain ys zs qb where
    d: "dict_keys rt (get_possible_actions (env ag) s) = ys @ best # zs" "Q ag (s, best) = Some qb"
      "\<forall>a\<in>set ys. \<exists>q. Q ag (s, a) = Some q \<and> q < qb" "\<forall>a\<in>set zs. \<exists>q. Q ag (s, a) = Some q \<and> q \<le> qb"
    by blast
  have s: "set (get_possible_actions (env ag) s) = set ys \<union> {best} \<union> set zs"
    using keys [of "get_possible_actions (env ag) s"] d(1) by simp
  then show "best \<in> set (get_possible_actions (env ag) s)" by simp
  have "\<forall>a\<in>set (get_possible_actions (env ag) s). \<exists>q. Q ag (s, a) = Some q \<and> q \<le> qb"
    unfolding s using d(2,3,4) by fastforce
  with d(2) show "\<exists>qb. Q ag (s, best) = Some qb \<and>
           (\<forall>a\<in>set (get_possible_actions (env ag) s). \<exists>q. Q ag (s, a) = Some q \<and> q \<le> qb)" by blast
qed

lemma find_best_action_policy_irrelevant [simp]:
  "find_best_action rt (ag\<lparr>policy := p\<rparr>) s = find_best_action rt ag s"
  by (simp add: find_best_action_def QA_pairs_def)

lemma find_best_action_no_actions:
  assumes "get_possible_actions (env ag) s = []"
  shows "find_best_action rt ag s = Inl ValueError"
  using assms by (simp add: find_best_action_def QA_pairs_def dict_items_def List.map_filter_def)


lemma fold_policy_assign:
  "fold (\<lambda>action p. p((s, action) \<mapsto> c)) acts p0 =
     (\<lambda>k. if fst k = s \<and> snd k \<in> set acts then Some c else p0 k)"
  by (induction acts arbitrary: p0) (auto simp: fun_eq_iff)

lemma update_policy_state_Inr:
  assumes keys: "\<And>ks. set (dict_keys rt ks) = set ks"
    and up: "update_policy_state rt ag s = Inr ag'"
  shows "\<exists>best. find_best_action rt ag s = Inr best \<and> ag' = ag\<lparr>policy := greedy_policy ag s best\<rparr>"
proof -
  from up obtain best where fb: "find_best_action rt ag s = Inr best"
    by (auto simp: update_policy_state_def Let_def split: sum.splits)
  have mem: "best \<in> set (get_possible_actions (env ag) s)"
    by (rule find_best_action_argmax(1) [OF keys fb])
  have "ag' = ag\<lparr>policy := greedy_policy ag s best\<rparr>"
    using up fb mem
    by (auto simp: update_policy_state_def Let_def fold_policy_assign dict_get_def
        greedy_policy_def fun_eq_iff intro!: arg_cong [where f = "\<lambda>p. ag\<lparr>policy := p\<rparr>"])
  with fb show ?thesis by blast
qed

lemma update_policy_states_Inr:
  assumes keys: "\<And>ks. set (dict_keys rt ks) = set ks"
    and up: "update_policy_states rt ag sts = Inr ag'"
  shows "ag' = ag\<lparr>policy := policy ag'\<rparr> \<and>
         (\<forall>s\<in>set sts. \<exists>best. find_best_action rt ag s = Inr best \<and>
            (\<forall>a\<in>set (get_possible_actions (env ag) s).
               policy ag' (s, a) =
                 Some (if a = best
                       then epsilon ag / real (length (get_possible_actions (env ag) s)) + (1 - epsilon ag)
                       else epsilon ag / real (length (get_possible_actions (env ag) s))))) \<and>
         (\<forall>s a. s \<notin> set sts \<or> a \<notin> set (get_possible_actions (env ag) s) \<longrightarrow>
            policy ag' (s, a) = policy ag (s, a))"
  using up
proof (induction sts arbitrary: ag)
  case Nil
  then show ?case by simp
next
  case (Cons s0 rest)
  from Cons.prems obtain ag1 where s1: "update_policy_state rt ag s0 = Inr ag1"
    and r1: "update_policy_states rt ag1 rest = Inr ag'"
    by (auto split: sum.splits)
  from update_policy_state_Inr [OF keys s1] obtain best0 where
    fb0: "find_best_action rt ag s0 = Inr best0" and ag1: "ag1 = ag\<lparr>policy := greedy_policy ag s0 best0\<rparr>"
    by blast
  note ih = Cons.IH [OF r1]
  have frame: "ag' = ag\<lparr>policy := policy ag'\<rparr>"
    using ih ag1 by (metis agent.surjective agent.update_convs(7) agent.select_convs(7))
  have e: "env ag1 = env ag" "epsilon ag1 = epsilon ag" using ag1 by simp_all
  have fb: "\<And>s. find_best_action rt ag1 s = find_best_action rt ag s" using ag1 by simp
  have p1: "\<And>k. policy ag1 k = greedy_policy ag s0 best0 k" using ag1 by simp
  have shape: "\<forall>s\<in>set (s0 # rest). \<exists>best. find_best_action rt ag s = Inr best \<and>
            (\<forall>a\<in>set (get_possible_actions (env ag) s).
               policy ag' (s, a) =
                 Some (if a = best
                       then epsilon ag / real (length (get_possible_actions (env ag) s)) + (1 - epsilon ag)
                       else epsilon ag / real (length (get_possible_actions (env ag) s))))"
  proof
    fix s assume s: "s \<in> set (s0 # rest)"
    show "\<exists>best. find_best_action rt ag s = Inr best \<and>
            (\<forall>a\<in>set (get_possible_actions (env ag) s).
               policy ag' (s, a) =
                 Some (if a = best
                       then epsilon ag / real (length (get_possible_actions (env ag) s)) + (1 - epsilon ag)
                       else epsilon ag / real (length (get_possible_actions (env ag) s))))"
    proof (cases "s \<in> set rest")
      case True
      with ih show ?thesis unfolding e fb by blast
    next
      case False
      with s have [simp]: "s = s0" by simp
      from False ih have "\<And>a. policy ag' (s0, a) = policy ag1 (s0, a)" by simp
      then show ?thesis using fb0 by (auto simp: p1 greedy_policy_def)
    qed
  qed
  have out: "\<forall>s a. s \<notin> set (s0 # rest) \<or> a \<notin> set (get_possible_actions (env ag) s) \<longrightarrow>
            policy ag' (s, a) = policy ag (s, a)"
  proof (intro allI impI)
    fix s a assume o: "s \<notin> set (s0 # rest) \<or> a \<notin> set (get_possible_actions (env ag) s)"
    then have "policy ag' (s, a) = policy ag1 (s, a)" using ih unfolding e by auto
    also have "\<dots> = policy ag (s, a)" using o by (auto simp: p1 greedy_policy_def)
    finally show "policy ag' (s, a) = policy ag (s, a)" .
  qed
  from frame shape out show ?case by blast
qed

lemma update_policy_Inr:
  assumes keys: "\<And>ks. set (dict_keys rt ks) = set ks"
    and up: "update_policy rt ag = Inr ag'"
  shows "ag' = ag\<lparr>policy := policy ag'\<rparr>"
    and "\<And>s. s \<in> set (get_states (env ag)) \<Longrightarrow>
          \<exists>best. find_best_action rt ag s = Inr best \<and>
            (\<forall>a\<in>set (get_possible_actions (env ag) s).
               policy ag' (s, a) =
                 Some (if a = best
                       then epsilon ag / real (length (get_possible_actions (env ag) s)) + (1 - epsilon ag)
                       else epsilon ag / real (length (get_possible_actions (env ag) s))))"
    and "\<And>s a. s \<notin> set (get_states (env ag)) \<or> a \<notin> set (get_possible_actions (env ag) s) \<Longrightarrow>
            policy ag' (s, a) = policy ag (s, a)"
  using update_policy_states_Inr [OF keys up [unfolded update_policy_def]] by blast+

lemma update_policy_state_frame:
  assumes "update_policy_state rt ag s = Inr ag'"
  shows "\<exists>p. ag' = ag\<lparr>policy := p\<rparr> \<and>
           dom p = dom (policy ag) \<union> {(s, a) | a. a \<in> set (get_possible_actions (env ag) s)}"
proof -
  let ?acts = "get_possible_actions (env ag) s"
  define p where "p = fold (\<lambda>action p. p((s, action) \<mapsto> epsilon ag / real (length ?acts))) ?acts (policy ag)"
  have up: "(case find_best_action rt ag s of
              Inl e \<Rightarrow> Inl e
            | Inr best_action \<Rightarrow>
                (case dict_get p (s, best_action) of
                   Inl e \<Rightarrow> Inl e
                 | Inr v \<Rightarrow> Inr (ag\<lparr>policy := p((s, best_action) \<mapsto> v + (1 - epsilon ag))\<rparr>))) = Inr ag'"
    using assms unfolding update_policy_state_def Let_def p_def .
  obtain best where fb: "find_best_action rt ag s = Inr best"
    using up by (cases "find_best_action rt ag s") simp_all
  obtain v where b: "p (s, best) = Some v"
    using up fb by (cases "p (s, best)") (simp_all add: dict_get_def)
  have ag': "ag' = ag\<lparr>policy := p((s, best) \<mapsto> v + (1 - epsilon ag))\<rparr>"
    using up fb b by (simp add: dict_get_def)
  have 1: "dom p = dom (policy ag) \<union> {(s, a) | a. a \<in> set ?acts}"
    unfolding p_def fold_policy_assign by (auto split: if_splits)
  have 3: "(s, best) \<in> dom p" using b by (rule domI)
  have "dom (p((s, best) \<mapsto> v + (1 - epsilon ag))) = dom (policy ag) \<union> {(s, a) | a. a \<in> set ?acts}"
    unfolding dom_fun_upd using 1 3 by (simp add: insert_absorb)
  with ag' show ?thesis by (intro exI conjI)
qed

lemma update_policy_states_frame:
  assumes "update_policy_states rt ag sts = Inr ag'"
  shows "\<exists>p. ag' = ag\<lparr>policy := p\<rparr> \<and>
           dom p =
             dom (policy ag) \<union> {(s, a) | s a. s \<in> set sts \<and> a \<in> set (get_possible_actions (env ag) s)}"
  using assms
proof (induction sts arbitrary: ag)
  case Nil
  then have "ag' = ag\<lparr>policy := policy ag\<rparr>" by simp
  then show ?case by (intro exI [of _ "policy ag"]) simp
next
  case (Cons s0 rest)
  from Cons.prems obtain ag1 where s1: "update_policy_state rt ag s0 = Inr ag1"
    and r1: "update_policy_states rt ag1 rest = Inr ag'"
    by (auto split: sum.splits)
  from update_policy_state_frame [OF s1] obtain p1 where
    ag1: "ag1 = ag\<lparr>policy := p1\<rparr>"
    and d1: "dom p1 = dom (policy ag) \<union> {(s0, a) | a. a \<in> set (get_possible_actions (env ag) s0)}"
    by blast
  from Cons.IH [OF r1] obtain p where
    ag': "ag' = ag1\<lparr>policy := p\<rparr>"
    and d: "dom p = dom (policy ag1) \<union>
              {(s, a) | s a. s \<in> set rest \<and> a \<in> set (get_possible_actions (env ag1) s)}"
    by blast
  have e: "env ag1 = env ag" "policy ag1 = p1" unfolding ag1 by simp_all
  have "ag' = ag\<lparr>policy := p\<rparr>" unfolding ag' ag1 by simp
  moreover have "dom p =
           dom (policy ag) \<union> {(s, a) | s a. s \<in> set (s0 # rest) \<and> a \<in> set (get_possible_actions (env ag) s)}"
    unfolding d e d1 by auto
  ultimately show ?case by (intro exI conjI)
qed

lemma update_policy_frame:
  assumes "update_policy rt ag = Inr ag'"
  shows "\<exists>p. ag' = ag\<lparr>policy := p\<rparr> \<and>
           dom p =
             dom (policy ag) \<union>
             {(s, a) | s a. s \<in> set (get_states (env ag)) \<and> a \<in> set (get_possible_actions (env ag) s)}"
  using assms unfolding update_policy_def by (rule update_policy_states_frame)


lemma distribution_after_init:
  assumes "s \<in> set (get_states e)" and "get_possible_actions e s \<noteq> []"
  shows "distribution_at (agent_init c e df al eps) s"
proof -
  let ?acts = "get_possible_actions e s"
  have n: "0 < real (length ?acts)" using assms(2) by simp
  have "traverse (\<lambda>a. dict_get (policy (agent_init c e df al eps)) (s, a)) ?acts =
          Inr (map (\<lambda>a. 1 / real (length ?acts)) ?acts)"
    by (rule traverse_map) (simp add: dict_get_def agent_init_fields assms(1))
  moreover have "sum_list (map (\<lambda>a. 1 / real (length ?acts)) ?acts) = 1"
    using n by (simp add: sum_list_const)
  moreover have "list_all (\<lambda>p. 0 \<le> p \<and> p \<le> 1) (map (\<lambda>a. 1 / real (length ?acts)) ?acts)"
    using assms(2) by (simp add: list_all_iff Suc_leI)
  ultimately show ?thesis by (simp add: distribution_at_def agent_init_fields)
qed

lemma distribution_after_update_policy:
  assumes keys: "\<And>ks. set (dict_keys rt ks) = set ks"
    and up: "update_policy rt ag = Inr ag'"
    and eps: "0 \<le> epsilon ag" "epsilon ag \<le> 1"
    and s: "s \<in> set (get_states (env ag))"
    and ne: "get_possible_actions (env ag) s \<noteq> []"
    and d: "distinct (get_possible_actions (env ag) s)"
  shows "distribution_at ag' s"
proof -
  let ?acts = "get_possible_actions (env ag) s"
  let ?c = "epsilon ag / real (length ?acts)"
  note u = update_policy_Inr [OF keys up]
  have e: "env ag' = env ag" by (subst u(1)) simp
  from u(2) [OF s] obtain best where fb: "find_best_action rt ag s = Inr best"
    and sh: "\<forall>a\<in>set ?acts. policy ag' (s, a) = Some (if a = best then ?c + (1 - epsilon ag) else ?c)"
    by blast
  have mem: "best \<in> set ?acts" by (rule find_best_action_argmax(1) [OF keys fb])
  have n: "1 \<le> real (length ?acts)" using ne by (cases ?acts) simp_all
  have c: "0 \<le> ?c" "?c \<le> epsilon ag"
  proof -
    show "0 \<le> ?c" using eps by simp
    have "?c \<le> epsilon ag / 1" using eps n by (intro divide_left_mono) auto
    then show "?c \<le> epsilon ag" by simp
  qed
  have tr: "traverse (\<lambda>a. dict_get (policy ag') (s, a)) ?acts =
          Inr (map (\<lambda>a. if a = best then ?c + (1 - epsilon ag) else ?c) ?acts)"
    by (rule traverse_map) (simp add: dict_get_def sh)
  have sm: "sum_list (map (\<lambda>a. if a = best then ?c + (1 - epsilon ag) else ?c) ?acts) = 1"
  proof -
    have "real (length ?acts) * ?c = epsilon ag" using ne by simp
    then show ?thesis by (simp only: sum_list_one_hot [OF d mem])
  qed
  have rng: "list_all (\<lambda>p. 0 \<le> p \<and> p \<le> 1) (map (\<lambda>a. if a = best then ?c + (1 - epsilon ag) else ?c) ?acts)"
    using c eps by (auto simp: list_all_iff)
  from tr sm rng show ?thesis by (simp add: distribution_at_def e)
qed

section \<open>The learning step and the loop\<close>

lemma td_assign_Inr:
  assumes "td_assign ag k R nxt = Inr ag'"
  shows "\<exists>q. Q ag k = Some q \<and>
           ag' = ag\<lparr>Q := (Q ag)(k \<mapsto> q + alpha ag * (R + discount_factor ag * nxt - q)),
                    td_updates := td_updates ag @ [k]\<rparr>"
  using assms by (auto simp: td_assign_def dict_get_def split: option.splits)

lemma choose_action_eq:
  assumes "traverse (\<lambda>a. dict_get (policy ag) (S, a)) (get_possible_actions (env ag) S) = Inr ps"
  shows "choose_action rt ag S w = random_choice rt (get_possible_actions (env ag) S) ps w"
  using assms by (simp add: choose_action_def)

lemma expected_next_value_sum:
  assumes "\<forall>a\<in>set acts. policy ag (s, a) = Some (p a) \<and> Q ag (s, a) = Some (v a)"
  shows "expected_next_value ag s acts acc = Inr (acc + (\<Sum>a\<leftarrow>acts. p a * v a))"
  using assms by (induction acts arbitrary: acc) (simp_all add: dict_get_def add.assoc)

lemma inner_learn_subject:
  assumes "inner_learn rt ag S A w = Inr (SA', ag', w')"
  shows "\<exists>A1 q v. Q ag (S, A1) = Some q \<and>
           ag' = ag\<lparr>Q := (Q ag)((S, A1) \<mapsto> v), td_updates := td_updates ag @ [(S, A1)]\<rparr>"
proof (cases "cls ag")
  case SarsaAgent
  with assms obtain A1 R nxt where "td_assign ag (S, A1) R nxt = Inr ag'"
    by (auto simp: inner_learn_def sarsa_inner_learn_def split: sum.splits prod.splits)
  from td_assign_Inr [OF this] show ?thesis by blast
next
  case QLearningAgent
  with assms obtain A1 R nxt where "td_assign ag (S, A1) R nxt = Inr ag'"
    by (auto simp: inner_learn_def qlearning_inner_learn_def split: sum.splits prod.splits)
  from td_assign_Inr [OF this] show ?thesis by blast
next
  case ExpectedSarsaAgent
  with assms obtain A1 R nxt where "td_assign ag (S, A1) R nxt = Inr ag'"
    by (auto simp: inner_learn_def expected_sarsa_inner_learn_def split: sum.splits prod.splits)
  from td_assign_Inr [OF this] show ?thesis by blast
qed

lemma inner_learn_frame:
  assumes "inner_learn rt ag S A w = Inr (SA', ag', w')"
  shows "policy ag' = policy ag" "env ag' = env ag" "epsilon ag' = epsilon ag" "cls ag' = cls ag"
    "alpha ag' = alpha ag" "discount_factor ag' = discount_factor ag"
  using inner_learn_subject [OF assms] by auto

lemma learn_step_Inr:
  assumes "learn_step rt ag S A w = Inr (SA', ag', w')"
  shows "\<exists>ag1. inner_learn rt ag S A w = Inr (SA', ag1, w') \<and> update_policy rt ag1 = Inr ag'"
  using assms by (auto simp: learn_step_def split: sum.splits prod.splits)

lemma learn_step_subject:
  assumes "learn_step rt ag S A w = Inr (SA', ag', w')"
  shows "\<exists>A1 q v p. Q ag (S, A1) = Some q \<and>
           ag' = ag\<lparr>Q := (Q ag)((S, A1) \<mapsto> v), policy := p, td_updates := td_updates ag @ [(S, A1)]\<rparr> \<and>
           dom p = dom (policy ag) \<union>
             {(s, a) | s a. s \<in> set (get_states (env ag)) \<and> a \<in> set (get_possible_actions (env ag) s)}"
proof -
  from learn_step_Inr [OF assms] obtain ag1 where
    il: "inner_learn rt ag S A w = Inr (SA', ag1, w')" and up: "update_policy rt ag1 = Inr ag'"
    by blast
  from inner_learn_subject [OF il] obtain A1 q v where q: "Q ag (S, A1) = Some q"
    and ag1: "ag1 = ag\<lparr>Q := (Q ag)((S, A1) \<mapsto> v), td_updates := td_updates ag @ [(S, A1)]\<rparr>"
    by blast
  from update_policy_frame [OF up] obtain p where ag': "ag' = ag1\<lparr>policy := p\<rparr>"
    and d: "dom p = dom (policy ag1) \<union>
              {(s, a) | s a. s \<in> set (get_states (env ag1)) \<and> a \<in> set (get_possible_actions (env ag1) s)}"
    by blast
  have e: "env ag1 = env ag" "policy ag1 = policy ag" unfolding ag1 by simp_all
  have "ag' = ag\<lparr>Q := (Q ag)((S, A1) \<mapsto> v), policy := p,
                  td_updates := td_updates ag @ [(S, A1)]\<rparr>"
    unfolding ag' ag1 by simp
  with q d [unfolded e] show ?thesis by (intro exI conjI)
qed


lemma episode_loop_step:
  assumes "is_terminal_state (env ag) S = Inr False"
    and "inner_learn rt ag S A w = Inr ((S', A'), ag1, w')"
    and "update_policy rt ag1 = Inr ag2"
  shows "episode_loop rt (Suc fuel) ag S A w = episode_loop rt fuel ag2 S' A' w'"
  using assms by (simp add: learn_step_def)

lemma episode_loop_terminal:
  assumes "is_terminal_state (env ag) S = Inr True"
  shows "episode_loop rt fuel ag S A w = Some (Inr (ag, w))"
  using assms by (cases fuel) simp_all

lemma episode_loop_invariant:
  assumes step: "\<And>ag S A w SA' ag' w'. P ag \<Longrightarrow> learn_step rt ag S A w = Inr (SA', ag', w') \<Longrightarrow> P ag'"
    and "P ag" and "episode_loop rt fuel ag S A w = Some (Inr (ag', w'))"
  shows "P ag'"
  using assms(2,3)
proof (induction fuel arbitrary: ag S A w)
  case 0
  then show ?case by (auto split: sum.splits bool.splits)
next
  case (Suc fuel)
  show ?case
  proof (cases "is_terminal_state (env ag) S = Inr True")
    case True
    with Suc.prems show ?thesis by simp
  next
    case False
    with Suc.prems(2) obtain S1 A1 ag1 w1 where
      st: "learn_step rt ag S A w = Inr ((S1, A1), ag1, w1)"
      and rest: "episode_loop rt fuel ag1 S1 A1 w1 = Some (Inr (ag', w'))"
      by (auto split: sum.splits bool.splits)
    from step [OF Suc.prems(1) st] have "P ag1" .
    from Suc.IH [OF this rest] show ?thesis .
  qed
qed

lemma learn_invariant:
  assumes step: "\<And>ag S A w SA' ag' w'. P ag \<Longrightarrow> learn_step rt ag S A w = Inr (SA', ag', w') \<Longrightarrow> P ag'"
    and "P ag" and "learn rt fuel num_samples initial_state ag w = Some (Inr (ag', w'))"
  shows "P ag'"
  using assms(2,3)
proof (induction num_samples arbitrary: ag w)
  case 0
  then show ?case by simp
next
  case (Suc n)
  from Suc.prems(2) obtain A w1 ag1 w2 where
    ep: "episode_loop rt fuel ag initial_state A w1 = Some (Inr (ag1, w2))"
    and rest: "learn rt fuel n initial_state ag1 w2 = Some (Inr (ag', w'))"
    by (auto split: sum.splits option.splits)
  from Suc.prems(1) ep have "P ag1"
    by (rule episode_loop_invariant [where P = P, rotated]) (blast intro: step)
  from Suc.IH [OF this rest] show ?case .
qed

lemma learn_calls_invariant:
  assumes step: "\<And>ag S A w SA' ag' w'. P ag \<Longrightarrow> learn_step rt ag S A w = Inr (SA', ag', w') \<Longrightarrow> P ag'"
    and "P ag" and "learn_calls rt fuel calls ag w = Some (Inr (ag', w'))"
  shows "P ag'"
  using assms(2,3)
proof (induction calls arbitrary: ag w)
  case Nil
  then show ?case by simp
next
  case (Cons call calls)
  obtain n s0 where call: "call = (n, s0)" by (cases call)
  from Cons.prems(2) obtain ag1 w1 where
    lr: "learn rt fuel n s0 ag w = Some (Inr (ag1, w1))"
    and rest: "learn_calls rt fuel calls ag1 w1 = Some (Inr (ag', w'))"
    unfolding call by (auto split: sum.splits option.splits)
  from Cons.prems(1) lr have "P ag1"
    by (rule learn_invariant [where P = P, rotated]) (blast intro: step)
  from Cons.IH [OF this rest] show ?case .
qed


section \<open>Two runs side by side\<close>






section \<open>Empty action sets and the use of the generator\<close>

lemma choose_action_no_actions:
  assumes "\<forall>ps u. random_choice rt [] ps u = Inl ValueError"
    and "get_possible_actions (env ag) S = []"
  shows "choose_action rt ag S w = Inl ValueError"
  using assms by (simp add: choose_action_def)

lemma update_policy_state_Inr_actions:
  assumes "update_policy_state rt ag s = Inr ag'"
  shows "get_possible_actions (env ag) s \<noteq> []"
proof
  assume "get_possible_actions (env ag) s = []"
  then have "find_best_action rt ag s = Inl ValueError" by (rule find_best_action_no_actions)
  with assms show False by (simp add: update_policy_state_def)
qed

lemma update_policy_states_Inr_actions:
  assumes "update_policy_states rt ag sts = Inr ag'"
  shows "\<forall>s\<in>set sts. get_possible_actions (env ag) s \<noteq> []"
  using assms
proof (induction sts arbitrary: ag)
  case Nil
  then show ?case by simp
next
  case (Cons s0 rest)
  from Cons.prems obtain ag1 where s1: "update_policy_state rt ag s0 = Inr ag1"
    and r1: "update_policy_states rt ag1 rest = Inr ag'"
    by (auto split: sum.splits)
  from update_policy_state_frame [OF s1] obtain p where "ag1 = ag\<lparr>policy := p\<rparr>" by blast
  then have e: "env ag1 = env ag" by simp
  from Cons.IH [OF r1] update_policy_state_Inr_actions [OF s1] show ?case by (simp add: e)
qed

lemma learn_step_Inr_actions:
  assumes "learn_step rt ag S A w = Inr (SA', ag', w')"
  shows "\<forall>s\<in>set (get_states (env ag)). get_possible_actions (env ag) s \<noteq> []"
proof -
  from learn_step_Inr [OF assms] obtain ag1 where
    il: "inner_learn rt ag S A w = Inr (SA', ag1, w')" and up: "update_policy rt ag1 = Inr ag'"
    by blast
  have e: "env ag1 = env ag" using inner_learn_frame [OF il] by simp
  from update_policy_states_Inr_actions [OF up [unfolded update_policy_def]] show ?thesis
    by (simp add: e)
qed

lemma inner_learn_no_successor_actions:
  assumes np: "\<forall>ps u. random_choice rt [] ps u = Inl ValueError"
    and em: "get_possible_actions (env ag) S_next = []"
  shows "cls ag \<noteq> QLearningAgent \<Longrightarrow> execute_action (env ag) S A w = Inr ((S_next, R), w1) \<Longrightarrow>
           inner_learn rt ag S A w = Inl ValueError"
    and "cls ag = QLearningAgent \<Longrightarrow> choose_action rt ag S w = Inr (A1, u1) \<Longrightarrow>
           execute_action (env ag) S A1 u1 = Inr ((S_next, R), u2) \<Longrightarrow>
           inner_learn rt ag S A w = Inl ValueError"
proof -
  note ch = choose_action_no_actions [OF np em]
  note fb = find_best_action_no_actions [OF em]
  show "inner_learn rt ag S A w = Inl ValueError"
    if "cls ag \<noteq> QLearningAgent" "execute_action (env ag) S A w = Inr ((S_next, R), w1)"
    using that by (cases "cls ag")
      (simp_all add: inner_learn_def sarsa_inner_learn_def expected_sarsa_inner_learn_def ch)
  show "inner_learn rt ag S A w = Inl ValueError"
    if "cls ag = QLearningAgent" "choose_action rt ag S w = Inr (A1, u1)"
      "execute_action (env ag) S A1 u1 = Inr ((S_next, R), u2)"
    using that by (simp add: inner_learn_def qlearning_inner_learn_def fb)
qed

lemma inner_learn_successor_actions:
  assumes np: "\<forall>ps u. random_choice rt [] ps u = Inl ValueError"
    and il: "inner_learn rt ag S A w = Inr ((S_next, A_next), ag', w')"
  shows "get_possible_actions (env ag) S_next \<noteq> []"
proof
  assume em: "get_possible_actions (env ag) S_next = []"
  note ch = choose_action_no_actions [OF np em]
  note fb = find_best_action_no_actions [OF em]
  show False
  proof (cases "cls ag")
    case SarsaAgent
    with il ch show False
      by (auto simp: inner_learn_def sarsa_inner_learn_def split: sum.splits prod.splits)
  next
    case QLearningAgent
    with il fb show False
      by (auto simp: inner_learn_def qlearning_inner_learn_def split: sum.splits prod.splits)
  next
    case ExpectedSarsaAgent
    with il ch show False
      by (auto simp: inner_learn_def expected_sarsa_inner_learn_def split: sum.splits prod.splits)
  qed
qed






section \<open>Evaluating the concrete inputs\<close>

lemmas demo_defs = learn_step_def inner_learn_def sarsa_inner_learn_def qlearning_inner_learn_def
  expected_sarsa_inner_learn_def choose_action_def td_assign_def dict_get_def
  update_policy_def update_policy_state_def find_best_action_def QA_pairs_def dict_items_def
  demo_env_def demo_rt_def demo_grid_def demo_agent_def agent_init_def init_actions_def grid_env_def
  grid_get_states_def grid_get_possible_actions_def grid_execute_action_def grid_is_terminal_state_def
  getitem_def rewards_at_def UP_def DOWN_def LEFT_def RIGHT_def Let_def List.map_filter_simps

lemma demo_grid_init: "WindyGridWorld_init [[0, 0], [0, 1]] [0, 0] = Inr demo_grid"
  by (simp add: WindyGridWorld_init_def shape_def demo_grid_def upto.simps)

lemma demo_rt_keys: "set (dict_keys demo_rt ks) = set ks"
  by (simp add: demo_rt_def)

lemma demo_env_facts:
  "get_states demo_env = [(0, 0), (0, 1), (1, 0), (1, 1)]"
  "get_possible_actions demo_env (0, 0) = [DOWN, RIGHT]"
  "get_possible_actions demo_env (0, 1) = [DOWN, LEFT]"
  "get_possible_actions demo_env (1, 0) = [UP, RIGHT]"
  "get_possible_actions demo_env (1, 1) = [UP, LEFT]"
  "is_terminal_state demo_env (0, 0) = Inr False"
  "is_terminal_state demo_env (1, 0) = Inr False"
  "is_terminal_state demo_env (1, 1) = Inr True"
  by (simp_all add: demo_defs)

lemma demo_agent_fields:
  "cls (demo_agent c) = c" "env (demo_agent c) = demo_env" "discount_factor (demo_agent c) = 1"
  "alpha (demo_agent c) = 1 / 2" "epsilon (demo_agent c) = 1 / 10" "td_updates (demo_agent c) = []"
  by (simp_all add: demo_agent_def agent_init_fields)

lemma demo_agent_tables:
  "Q (demo_agent c) ((0, 0), DOWN) = Some 0" "Q (demo_agent c) ((0, 0), RIGHT) = Some 0"
  "Q (demo_agent c) ((1, 0), UP) = Some 0" "Q (demo_agent c) ((1, 0), RIGHT) = Some 0"
  "Q (demo_agent c) ((0, 1), DOWN) = Some 0" "Q (demo_agent c) ((0, 1), LEFT) = Some 0"
  "policy (demo_agent c) ((0, 0), DOWN) = Some (1 / 2)" "policy (demo_agent c) ((0, 0), RIGHT) = Some (1 / 2)"
  "policy (demo_agent c) ((1, 0), UP) = Some (1 / 2)" "policy (demo_agent c) ((1, 0), RIGHT) = Some (1 / 2)"
  "policy (demo_agent c) ((1, 1), UP) = Some (1 / 2)" "policy (demo_agent c) ((1, 1), LEFT) = Some (1 / 2)"
  by (simp_all add: demo_agent_def agent_init_fields demo_env_facts UP_def DOWN_def LEFT_def RIGHT_def)

lemma demo_execute:
  "execute_action demo_env (0, 0) DOWN w = Inr (((1, 0), - 1), w)"
  "execute_action demo_env (0, 0) RIGHT w = Inr (((0, 1), - 1), w)"
  "execute_action demo_env (1, 0) RIGHT w = Inr (((1, 1), 0), w)"
  by (simp_all add: demo_defs)

lemma demo_choice:
  "random_choice demo_rt [x, y] ps 0 = Inr (x, 1)"
  "random_choice demo_rt [x, y] ps (Suc 0) = Inr (y, 2)"
  by (simp_all add: demo_rt_def)

lemma demo_sarsa_step:
  "case learn_step demo_rt (demo_agent SarsaAgent) (0, 0) DOWN 1 of
     Inl e \<Rightarrow> False
   | Inr (SA', ag', w') \<Rightarrow>
       SA' = ((1, 0), RIGHT) \<and> w' = 2 \<and> env ag' = demo_env \<and> epsilon ag' = 1/10 \<and>
       find_best_action demo_rt ag' (0, 1) = Inr DOWN"
  by (simp add: demo_defs)

lemma demo_sarsa_learn:
  "case learn_calls demo_rt 5 [(1, (0, 0))] (demo_agent SarsaAgent) 0 of
     Some (Inr (ag', w')) \<Rightarrow>
       w' = 3 \<and> td_updates ag' = [((0, 0), DOWN), ((1, 0), RIGHT)] \<and>
       Q ag' ((0, 0), DOWN) = Some (- 1 / 2) \<and> Q ag' ((0, 0), RIGHT) = Some 0 \<and>
       policy ag' ((0, 0), DOWN) = Some (1 / 20) \<and> policy ag' ((0, 0), RIGHT) = Some (19 / 20)
   | _ \<Rightarrow> False"
  by code_simp

lemma dead_end_facts:
  "get_possible_actions dead_end_env 0 = [''GO'']"
  "get_possible_actions dead_end_env (Suc 0) = []"
  "is_terminal_state dead_end_env 0 = Inr False"
  "is_terminal_state dead_end_env (Suc 0) = Inr True"
  "execute_action dead_end_env 0 ''GO'' w = Inr ((Suc 0, 0), w)"
  "env (dead_end_agent c) = dead_end_env"
  "cls (dead_end_agent c) = c"
  "policy (dead_end_agent c) (0, ''GO'') = Some 1"
  "Q (dead_end_agent c) (0, ''GO'') = Some 0"
  by (simp_all add: dead_end_env_def dead_end_agent_def agent_init_fields)

lemma example_grid_facts:
  "shape R_example = Inr (3, 6)"
  "WindyGridWorld_init R_example wind_example =
     Inr \<lparr>rewards = R_example, wind = wind_example,
          states = List.product [0 .. 2] [0 .. 5], max_down = 2, max_right = 5\<rparr>"
  by (simp_all add: shape_def WindyGridWorld_init_def R_example_def)


section \<open>The claims\<close>



text \<open>
  Claim C2. For \<open>0 \<le> epsilon \<le> 1\<close> and a state \<open>s\<close> of the environment with a non-empty list
  of distinct legal actions, the policy entries of \<open>s\<close> are a probability distribution
  (exactly, over the reals): right after construction, after every policy refresh,
  unchanged by the TD update of any of the three classes in between, and so whenever a
  sequence of \<^verbatim>\<open>learn\<close> calls returns.
\<close>

theorem policy_rows_are_distributions:
  assumes keys: "\<And>ks. set (dict_keys rt ks) = set ks"
    and eps: "0 \<le> eps" "eps \<le> 1"
    and s: "s \<in> set (get_states e)"
    and ne: "get_possible_actions e s \<noteq> []"
    and d: "distinct (get_possible_actions e s)"
  shows "distribution_at (agent_init c e df al eps) s \<and>
         (\<forall>ag ag'. env ag = e \<and> epsilon ag = eps \<and> update_policy rt ag = Inr ag' \<longrightarrow>
            distribution_at ag' s) \<and>
         (\<forall>ag S A w SA' ag' w'. inner_learn rt ag S A w = Inr (SA', ag', w') \<longrightarrow>
            distribution_at ag' s = distribution_at ag s) \<and>
         (\<forall>fuel calls w ag' w'.
            learn_calls rt fuel calls (agent_init c e df al eps) w = Some (Inr (ag', w')) \<longrightarrow>
            distribution_at ag' s)"
proof -
  let ?P = "\<lambda>ag. env ag = e \<and> epsilon ag = eps \<and> distribution_at ag s"
  have 1: "distribution_at (agent_init c e df al eps) s"
    by (rule distribution_after_init [OF s ne])
  have 2: "distribution_at ag' s"
    if "env ag = e \<and> epsilon ag = eps \<and> update_policy rt ag = Inr ag'" for ag ag'
    using distribution_after_update_policy [OF keys, of ag ag' s] that eps s ne d by simp
  have 3: "distribution_at ag' s = distribution_at ag s"
    if "inner_learn rt ag S A w = Inr (SA', ag', w')" for ag S A w SA' ag' w'
    using inner_learn_frame [OF that] by (simp add: distribution_at_def)
  have step: "?P ag'" if p: "?P ag" and st: "learn_step rt ag S A w = Inr (SA', ag', w')"
    for ag S A w SA' ag' w'
  proof -
    from learn_step_Inr [OF st] obtain ag1 where
      il: "inner_learn rt ag S A w = Inr (SA', ag1, w')" and up: "update_policy rt ag1 = Inr ag'"
      by blast
    have e1: "env ag1 = e" "epsilon ag1 = eps" using inner_learn_frame [OF il] p by simp_all
    have "ag' = ag1\<lparr>policy := policy ag'\<rparr>" by (rule update_policy_Inr(1) [OF keys up])
    then have "env ag' = env ag1" "epsilon ag' = epsilon ag1"
      by (metis agent.select_convs(2) agent.surjective agent.update_convs(7),
          metis agent.select_convs(5) agent.surjective agent.update_convs(7))
    with e1 2 [of ag1 ag'] up show ?thesis by simp
  qed
  have 4: "distribution_at ag' s"
    if "learn_calls rt fuel calls (agent_init c e df al eps) w = Some (Inr (ag', w'))"
    for fuel calls w ag' w'
  proof -
    have "?P (agent_init c e df al eps)" using 1 by (simp add: agent_init_fields)
    from this that have "?P ag'"
      by (rule learn_calls_invariant [where P = ?P, rotated]) (rule step, assumption+)
    then show ?thesis by simp
  qed
  from 1 2 3 4 show ?thesis by blast
qed

theorem policy_rows_are_distributions_witness:
  "(\<forall>ks. set (dict_keys demo_rt ks) = set ks) \<and> (0::real) \<le> 1 / 10 \<and> (1::real) / 10 \<le> 1 \<and>
   (0, 0) \<in> set (get_states demo_env) \<and> get_possible_actions demo_env (0, 0) \<noteq> [] \<and>
   distinct (get_possible_actions demo_env (0, 0)) \<and>
   distribution_at (demo_agent SarsaAgent) (0, 0) \<and>
   (\<exists>ag1 ag2. inner_learn demo_rt (demo_agent SarsaAgent) (0, 0) DOWN 1 = Inr (((1, 0), RIGHT), ag1, 2) \<and>
      distribution_at ag1 (0, 0) \<and>
      env ag1 = demo_env \<and> epsilon ag1 = 1 / 10 \<and> update_policy demo_rt ag1 = Inr ag2 \<and>
      distribution_at ag2 (0, 0)) \<and>
   (\<exists>ag'. learn_calls demo_rt 5 [(1, (0, 0))] (demo_agent SarsaAgent) 0 = Some (Inr (ag', 3)) \<and>
      policy ag' ((0, 0), DOWN) = Some (1 / 20) \<and> policy ag' ((0, 0), RIGHT) = Some (19 / 20) \<and>
      distribution_at ag' (0, 0))"
proof -
  have h: "(0::real) \<le> 1 / 10" "(1::real) / 10 \<le> 1" "(0, 0) \<in> set (get_states demo_env)"
    "get_possible_actions demo_env (0, 0) \<noteq> []" "distinct (get_possible_actions demo_env (0, 0))"
    by (simp_all add: demo_env_facts DOWN_def RIGHT_def)
  note t = policy_rows_are_distributions [of demo_rt, OF demo_rt_keys h, of SarsaAgent 1 "1 / 2"]
  obtain ag' where run: "learn_calls demo_rt 5 [(1, (0, 0))] (demo_agent SarsaAgent) 0 = Some (Inr (ag', 3))"
    and p: "policy ag' ((0, 0), DOWN) = Some (1 / 20)" "policy ag' ((0, 0), RIGHT) = Some (19 / 20)"
    using demo_sarsa_learn by (auto split: option.splits sum.splits)
  from t run have d0: "distribution_at (demo_agent SarsaAgent) (0, 0)" and d': "distribution_at ag' (0, 0)"
    unfolding demo_agent_def by blast+
  obtain ag2 where "learn_step demo_rt (demo_agent SarsaAgent) (0, 0) DOWN 1 = Inr (((1, 0), RIGHT), ag2, 2)"
    using demo_sarsa_step by (auto split: sum.splits)
  from learn_step_Inr [OF this] obtain ag1 where
    il: "inner_learn demo_rt (demo_agent SarsaAgent) (0, 0) DOWN 1 = Inr (((1, 0), RIGHT), ag1, 2)"
    and up: "update_policy demo_rt ag1 = Inr ag2"
    by blast
  have e1: "env ag1 = demo_env" "epsilon ag1 = 1 / 10"
    using inner_learn_frame [OF il] by (simp_all add: demo_agent_fields)
  from t il d0 have d1: "distribution_at ag1 (0, 0)" by blast
  from t e1 up have d2: "distribution_at ag2 (0, 0)" by blast
  from h run p d0 d' il d1 e1 up d2 demo_rt_keys show ?thesis by blast
qed

text \<open>
  Claim C3. One SARSA step on \<open>(S, A)\<close>: execute \<open>A\<close>, draw \<open>A_next\<close> with
  \<^verbatim>\<open>np.random.choice\<close> over the legal actions of \<open>S_next\<close> with the probabilities of the
  current policy, replace \<open>Q[S, A]\<close> by
  \<open>Q[S, A] + alpha * (R + discount_factor * Q[S_next, A_next] - Q[S, A])\<close> and nothing
  else, and return \<open>(S_next, A_next)\<close>; the loop of \<^verbatim>\<open>learn\<close> then goes on from exactly
  that state and action.
\<close>

theorem sarsa_step:
  assumes c: "cls ag = SarsaAgent"
    and ex: "execute_action (env ag) S A w = Inr ((S_next, R), w1)"
    and ps: "traverse (\<lambda>a. dict_get (policy ag) (S_next, a)) (get_possible_actions (env ag) S_next) = Inr ps"
    and ch: "random_choice rt (get_possible_actions (env ag) S_next) ps w1 = Inr (A_next, w2)"
    and q: "Q ag (S, A) = Some q"
    and qn: "Q ag (S_next, A_next) = Some q_next"
  shows "inner_learn rt ag S A w =
           Inr ((S_next, A_next),
                ag\<lparr>Q := (Q ag)((S, A) \<mapsto> q + alpha ag * (R + discount_factor ag * q_next - q)),
                   td_updates := td_updates ag @ [(S, A)]\<rparr>,
                w2) \<and>
         (\<forall>fuel ag2.
            is_terminal_state (env ag) S = Inr False \<and>
            update_policy rt
              (ag\<lparr>Q := (Q ag)((S, A) \<mapsto> q + alpha ag * (R + discount_factor ag * q_next - q)),
                  td_updates := td_updates ag @ [(S, A)]\<rparr>) = Inr ag2 \<longrightarrow>
            episode_loop rt (Suc fuel) ag S A w = episode_loop rt fuel ag2 S_next A_next w2)"
proof -
  have il: "inner_learn rt ag S A w =
           Inr ((S_next, A_next),
                ag\<lparr>Q := (Q ag)((S, A) \<mapsto> q + alpha ag * (R + discount_factor ag * q_next - q)),
                   td_updates := td_updates ag @ [(S, A)]\<rparr>,
                w2)"
    using c ex ch q qn
    by (simp add: inner_learn_def sarsa_inner_learn_def choose_action_eq [OF ps] dict_get_def
        td_assign_def)
  then show ?thesis using episode_loop_step by fastforce
qed

theorem sarsa_step_witness:
  "cls (demo_agent SarsaAgent) = SarsaAgent \<and>
   execute_action (env (demo_agent SarsaAgent)) (0, 0) DOWN 1 = Inr (((1, 0), - 1), 1) \<and>
   traverse (\<lambda>a. dict_get (policy (demo_agent SarsaAgent)) ((1, 0), a))
     (get_possible_actions (env (demo_agent SarsaAgent)) (1, 0)) = Inr [1 / 2, 1 / 2] \<and>
   random_choice demo_rt (get_possible_actions (env (demo_agent SarsaAgent)) (1, 0)) [1 / 2, 1 / 2] 1 =
     Inr (RIGHT, 2) \<and>
   Q (demo_agent SarsaAgent) ((0, 0), DOWN) = Some 0 \<and>
   Q (demo_agent SarsaAgent) ((1, 0), RIGHT) = Some 0 \<and>
   inner_learn demo_rt (demo_agent SarsaAgent) (0, 0) DOWN 1 =
     Inr (((1, 0), RIGHT),
          (demo_agent SarsaAgent)\<lparr>Q := (Q (demo_agent SarsaAgent))(((0, 0), DOWN) \<mapsto> - 1 / 2),
             td_updates := [((0, 0), DOWN)]\<rparr>,
          2) \<and>
   is_terminal_state (env (demo_agent SarsaAgent)) (0, 0) = Inr False \<and>
   (\<exists>ag2. update_policy demo_rt
            ((demo_agent SarsaAgent)\<lparr>Q := (Q (demo_agent SarsaAgent))(((0, 0), DOWN) \<mapsto> - 1 / 2),
               td_updates := [((0, 0), DOWN)]\<rparr>) = Inr ag2 \<and>
          episode_loop demo_rt (Suc 0) (demo_agent SarsaAgent) (0, 0) DOWN 1 =
            episode_loop demo_rt 0 ag2 (1, 0) RIGHT 2)"
proof -
  let ?ag = "demo_agent SarsaAgent"
  have c: "cls ?ag = SarsaAgent" by (simp add: demo_agent_fields)
  have ex: "execute_action (env ?ag) (0, 0) DOWN 1 = Inr (((1, 0), - 1), 1)"
    by (simp add: demo_agent_fields demo_execute)
  have ps: "traverse (\<lambda>a. dict_get (policy ?ag) ((1, 0), a)) (get_possible_actions (env ?ag) (1, 0)) =
      Inr [1 / 2, 1 / 2]"
    by (simp add: demo_agent_fields demo_env_facts demo_agent_tables dict_get_def)
  have ch: "random_choice demo_rt (get_possible_actions (env ?ag) (1, 0)) [1 / 2, 1 / 2] 1 = Inr (RIGHT, 2)"
    by (simp add: demo_agent_fields demo_env_facts demo_choice)
  note q = demo_agent_tables(1) [of SarsaAgent] and qn = demo_agent_tables(4) [of SarsaAgent]
  let ?ag1 = "?ag\<lparr>Q := (Q ?ag)(((0, 0), DOWN) \<mapsto> - 1 / 2), td_updates := [((0, 0), DOWN)]\<rparr>"
  have nt: "is_terminal_state (env ?ag) (0, 0) = Inr False"
    by (simp add: demo_agent_fields demo_env_facts)
  obtain ag2 where up: "update_policy demo_rt ?ag1 = Inr ag2"
    by (cases "update_policy demo_rt ?ag1") (simp_all add: demo_defs)
  from sarsa_step [where rt = demo_rt, OF c ex ps ch q qn]
  have il: "inner_learn demo_rt ?ag (0, 0) DOWN 1 = Inr (((1, 0), RIGHT), ?ag1, 2)"
    and lp: "\<forall>fuel ag2. is_terminal_state (env ?ag) (0, 0) = Inr False \<and>
            update_policy demo_rt ?ag1 = Inr ag2 \<longrightarrow>
            episode_loop demo_rt (Suc fuel) ?ag (0, 0) DOWN 1 = episode_loop demo_rt fuel ag2 (1, 0) RIGHT 2"
    by (simp_all add: demo_agent_fields)
  from lp nt up have "episode_loop demo_rt (Suc 0) ?ag (0, 0) DOWN 1 =
      episode_loop demo_rt 0 ag2 (1, 0) RIGHT 2" by blast
  with c ex ps ch q qn il nt up show ?thesis by blast
qed

text \<open>
  Claim C4. One Q-Learning step at \<open>S\<close>: whatever action is passed in, draw \<open>A\<close> with
  \<^verbatim>\<open>np.random.choice\<close> over the legal actions of \<open>S\<close> with the probabilities of the current
  policy, execute it, take \<open>A_best\<close>, the first legal action of \<open>S_next\<close> with maximal Q
  value, replace \<open>Q[S, A]\<close> by
  \<open>Q[S, A] + alpha * (R + discount_factor * Q[S_next, A_best] - Q[S, A])\<close>, and return
  \<open>(S_next, A)\<close> with the drawn \<open>A\<close>.
\<close>

theorem qlearning_step:
  assumes keys: "\<And>ks. set (dict_keys rt ks) = set ks"
    and c: "cls ag = QLearningAgent"
    and ps: "traverse (\<lambda>a. dict_get (policy ag) (S, a)) (get_possible_actions (env ag) S) = Inr ps"
    and ch: "random_choice rt (get_possible_actions (env ag) S) ps w = Inr (A, w1)"
    and ex: "execute_action (env ag) S A w1 = Inr ((S_next, R), w2)"
    and fb: "find_best_action rt ag S_next = Inr A_best"
    and q: "Q ag (S, A) = Some q"
  shows "\<exists>q_best.
           Q ag (S_next, A_best) = Some q_best \<and>
           A_best \<in> set (get_possible_actions (env ag) S_next) \<and>
           (\<forall>a\<in>set (get_possible_actions (env ag) S_next). \<exists>q'. Q ag (S_next, a) = Some q' \<and> q' \<le> q_best) \<and>
           first_argmax rt ag S_next A_best \<and>
           (\<forall>A0. inner_learn rt ag S A0 w =
              Inr ((S_next, A),
                   ag\<lparr>Q := (Q ag)((S, A) \<mapsto> q + alpha ag * (R + discount_factor ag * q_best - q)),
                      td_updates := td_updates ag @ [(S, A)]\<rparr>,
                   w2))"
proof -
  from find_best_action_argmax [OF keys fb] obtain q_best where
    mem: "A_best \<in> set (get_possible_actions (env ag) S_next)"
    and qb: "Q ag (S_next, A_best) = Some q_best"
    and mx: "\<forall>a\<in>set (get_possible_actions (env ag) S_next). \<exists>q'. Q ag (S_next, a) = Some q' \<and> q' \<le> q_best"
    by blast
  have fa: "first_argmax rt ag S_next A_best"
    unfolding first_argmax_def by (rule find_best_action_first_max [OF keys fb])
  have "inner_learn rt ag S A0 w =
              Inr ((S_next, A),
                   ag\<lparr>Q := (Q ag)((S, A) \<mapsto> q + alpha ag * (R + discount_factor ag * q_best - q)),
                      td_updates := td_updates ag @ [(S, A)]\<rparr>,
                   w2)" for A0
    using c ch ex fb q qb
    by (simp add: inner_learn_def qlearning_inner_learn_def choose_action_eq [OF ps] dict_get_def
        td_assign_def)
  with mem qb mx fa show ?thesis by blast
qed

theorem qlearning_step_witness:
  "(\<forall>ks. set (dict_keys demo_rt ks) = set ks) \<and>
   cls (demo_agent QLearningAgent) = QLearningAgent \<and>
   traverse (\<lambda>a. dict_get (policy (demo_agent QLearningAgent)) ((0, 0), a))
     (get_possible_actions (env (demo_agent QLearningAgent)) (0, 0)) = Inr [1 / 2, 1 / 2] \<and>
   random_choice demo_rt (get_possible_actions (env (demo_agent QLearningAgent)) (0, 0)) [1 / 2, 1 / 2] 1 =
     Inr (RIGHT, 2) \<and>
   execute_action (env (demo_agent QLearningAgent)) (0, 0) RIGHT 2 = Inr (((0, 1), - 1), 2) \<and>
   find_best_action demo_rt (demo_agent QLearningAgent) (0, 1) = Inr DOWN \<and>
   Q (demo_agent QLearningAgent) ((0, 0), RIGHT) = Some 0 \<and>
   first_argmax demo_rt (demo_agent QLearningAgent) (0, 1) DOWN \<and>
   inner_learn demo_rt (demo_agent QLearningAgent) (0, 0) DOWN 1 =
     Inr (((0, 1), RIGHT),
          (demo_agent QLearningAgent)\<lparr>Q := (Q (demo_agent QLearningAgent))(((0, 0), RIGHT) \<mapsto> - 1 / 2),
             td_updates := [((0, 0), RIGHT)]\<rparr>,
          2) \<and>
   inner_learn demo_rt (demo_agent QLearningAgent) (0, 0) RIGHT 1 =
     inner_learn demo_rt (demo_agent QLearningAgent) (0, 0) DOWN 1"
proof -
  let ?ag = "demo_agent QLearningAgent"
  have c: "cls ?ag = QLearningAgent" by (simp add: demo_agent_fields)
  have ps: "traverse (\<lambda>a. dict_get (policy ?ag) ((0, 0), a)) (get_possible_actions (env ?ag) (0, 0)) =
      Inr [1 / 2, 1 / 2]"
    by (simp add: demo_agent_fields demo_env_facts demo_agent_tables dict_get_def)
  have ch: "random_choice demo_rt (get_possible_actions (env ?ag) (0, 0)) [1 / 2, 1 / 2] 1 = Inr (RIGHT, 2)"
    by (simp add: demo_agent_fields demo_env_facts demo_choice)
  have ex: "execute_action (env ?ag) (0, 0) RIGHT 2 = Inr (((0, 1), - 1), 2)"
    by (simp add: demo_agent_fields demo_execute)
  have fb: "find_best_action demo_rt ?ag (0, 1) = Inr DOWN"
    by code_simp
  note q = demo_agent_tables(2) [of QLearningAgent]
  from qlearning_step [OF demo_rt_keys c ps ch ex fb q] obtain q_best where
    qb: "Q ?ag ((0, 1), DOWN) = Some q_best" and fa: "first_argmax demo_rt ?ag (0, 1) DOWN"
    and il: "\<forall>A0. inner_learn demo_rt ?ag (0, 0) A0 1 =
              Inr (((0, 1), RIGHT),
                   ?ag\<lparr>Q := (Q ?ag)(((0, 0), RIGHT) \<mapsto> 0 + alpha ?ag * (- 1 + discount_factor ?ag * q_best - 0)),
                      td_updates := td_updates ?ag @ [((0, 0), RIGHT)]\<rparr>,
                   2)"
    by blast
  from qb have [simp]: "q_best = 0" by (simp add: demo_agent_tables)
  from il have "inner_learn demo_rt ?ag (0, 0) DOWN 1 =
     Inr (((0, 1), RIGHT),
          ?ag\<lparr>Q := (Q ?ag)(((0, 0), RIGHT) \<mapsto> - 1 / 2), td_updates := [((0, 0), RIGHT)]\<rparr>, 2)"
    and "inner_learn demo_rt ?ag (0, 0) RIGHT 1 = inner_learn demo_rt ?ag (0, 0) DOWN 1"
    by (simp_all add: demo_agent_fields)
  with c ps ch ex fb q fa demo_rt_keys show ?thesis by simp
qed

text \<open>
  Claim C5. One Expected SARSA step on \<open>(S, A)\<close>: execute \<open>A\<close>, draw \<open>A_next\<close> with
  \<^verbatim>\<open>np.random.choice\<close> over the legal actions of \<open>S_next\<close> with the probabilities of the
  current policy, replace \<open>Q[S, A]\<close> by \<open>Q[S, A] + alpha * (R + discount_factor * E - Q[S, A])\<close>
  where \<open>E\<close> is the sum of \<open>policy[S_next, a] * Q[S_next, a]\<close> over the legal actions \<open>a\<close> of
  \<open>S_next\<close>, and return \<open>(S_next, A_next)\<close>.
\<close>

theorem expected_sarsa_step:
  assumes c: "cls ag = ExpectedSarsaAgent"
    and ex: "execute_action (env ag) S A w = Inr ((S_next, R), w1)"
    and pq: "\<forall>a\<in>set (get_possible_actions (env ag) S_next).
               policy ag (S_next, a) = Some (p a) \<and> Q ag (S_next, a) = Some (v a)"
    and ch: "random_choice rt (get_possible_actions (env ag) S_next)
               (map p (get_possible_actions (env ag) S_next)) w1 = Inr (A_next, w2)"
    and q: "Q ag (S, A) = Some q"
  shows "inner_learn rt ag S A w =
           Inr ((S_next, A_next),
                ag\<lparr>Q := (Q ag)((S, A) \<mapsto>
                       q + alpha ag * (R + discount_factor ag *
                             (\<Sum>a\<leftarrow>get_possible_actions (env ag) S_next. p a * v a) - q)),
                   td_updates := td_updates ag @ [(S, A)]\<rparr>,
                w2)"
proof -
  have ps: "traverse (\<lambda>a. dict_get (policy ag) (S_next, a)) (get_possible_actions (env ag) S_next) =
          Inr (map p (get_possible_actions (env ag) S_next))"
    by (rule traverse_map) (simp add: dict_get_def pq)
  show ?thesis
    using c ex ch q
    by (simp add: inner_learn_def expected_sarsa_inner_learn_def choose_action_eq [OF ps]
        expected_next_value_sum [OF pq] dict_get_def td_assign_def)
qed

theorem expected_sarsa_step_witness:
  "cls demo_agent_4 = ExpectedSarsaAgent \<and>
   execute_action (env demo_agent_4) (0, 0) DOWN 1 = Inr (((1, 0), - 1), 1) \<and>
   policy demo_agent_4 ((1, 0), UP) = Some (1 / 2) \<and> Q demo_agent_4 ((1, 0), UP) = Some 4 \<and>
   policy demo_agent_4 ((1, 0), RIGHT) = Some (1 / 2) \<and> Q demo_agent_4 ((1, 0), RIGHT) = Some 0 \<and>
   get_possible_actions (env demo_agent_4) (1, 0) = [UP, RIGHT] \<and>
   random_choice demo_rt [UP, RIGHT] [1 / 2, 1 / 2] 1 = Inr (RIGHT, 2) \<and>
   Q demo_agent_4 ((0, 0), DOWN) = Some 0 \<and>
   inner_learn demo_rt demo_agent_4 (0, 0) DOWN 1 =
     Inr (((1, 0), RIGHT),
          demo_agent_4\<lparr>Q := (Q demo_agent_4)(((0, 0), DOWN) \<mapsto> 1 / 2),
             td_updates := [((0, 0), DOWN)]\<rparr>,
          2)"
proof -
  let ?p = "\<lambda>a :: string. (1 / 2 :: real)" and ?v = "\<lambda>a. if a = UP then (4 :: real) else 0"
  have f: "cls demo_agent_4 = ExpectedSarsaAgent" "env demo_agent_4 = demo_env"
    "alpha demo_agent_4 = 1 / 2" "discount_factor demo_agent_4 = 1" "td_updates demo_agent_4 = []"
    by (simp_all add: demo_agent_4_def demo_agent_fields)
  have t: "policy demo_agent_4 ((1, 0), UP) = Some (1 / 2)" "Q demo_agent_4 ((1, 0), UP) = Some 4"
    "policy demo_agent_4 ((1, 0), RIGHT) = Some (1 / 2)" "Q demo_agent_4 ((1, 0), RIGHT) = Some 0"
    "Q demo_agent_4 ((0, 0), DOWN) = Some 0"
    by (simp_all add: demo_agent_4_def demo_agent_tables)
  have acts: "get_possible_actions (env demo_agent_4) (1, 0) = [UP, RIGHT]"
    by (simp add: f demo_env_facts)
  have ex: "execute_action (env demo_agent_4) (0, 0) DOWN 1 = Inr (((1, 0), - 1), 1)"
    by (simp add: f demo_execute)
  have pq: "\<forall>a\<in>set (get_possible_actions (env demo_agent_4) (1, 0)).
               policy demo_agent_4 ((1, 0), a) = Some (?p a) \<and> Q demo_agent_4 ((1, 0), a) = Some (?v a)"
    by (simp add: acts t)
  have ch0: "random_choice demo_rt [UP, RIGHT] [1 / 2, 1 / 2] 1 = Inr (RIGHT, 2)"
    by (simp add: demo_choice)
  then have ch: "random_choice demo_rt (get_possible_actions (env demo_agent_4) (1, 0))
               (map ?p (get_possible_actions (env demo_agent_4) (1, 0))) 1 = Inr (RIGHT, 2)"
    by (simp add: acts)
  from expected_sarsa_step [OF f(1) ex pq ch t(5)]
  have "inner_learn demo_rt demo_agent_4 (0, 0) DOWN 1 =
     Inr (((1, 0), RIGHT),
          demo_agent_4\<lparr>Q := (Q demo_agent_4)(((0, 0), DOWN) \<mapsto> 1 / 2), td_updates := [((0, 0), DOWN)]\<rparr>, 2)"
    by (simp add: f demo_env_facts)
  with f(1) ex t acts ch0 show ?thesis by simp
qed

text \<open>
  Claim C6 as stated fails: in the small run, \<^verbatim>\<open>learn(1, (1, 1))\<close> on the terminal corner
  changes nothing in the agent but leaves the random source one draw further, the draw
  of \<^verbatim>\<open>_choose_action((1, 1))\<close>.
\<close>

theorem learn_terminal_start_draws:
  "is_terminal_state demo_env (1, 1) = Inr True \<and>
   (\<exists>w'. learn demo_rt 0 1 (1, 1) (demo_agent SarsaAgent) 0 = Some (Inr (demo_agent SarsaAgent, w')) \<and>
      choose_action demo_rt (demo_agent SarsaAgent) (1, 1) 0 = Inr (UP, w') \<and> w' \<noteq> 0)"
proof -
  have ch: "choose_action demo_rt (demo_agent SarsaAgent) (1, 1) 0 = Inr (UP, 1)"
    by (simp add: choose_action_def demo_agent_fields demo_env_facts demo_agent_tables dict_get_def
        demo_choice)
  have t: "is_terminal_state (env (demo_agent SarsaAgent)) (1, 1) = Inr True"
    by (simp add: demo_agent_fields demo_env_facts)
  have "learn demo_rt 0 (Suc 0) (1, 1) (demo_agent SarsaAgent) 0 = Some (Inr (demo_agent SarsaAgent, 1))"
    by (simp add: ch t)
  with ch t show ?thesis by (simp add: demo_agent_fields)
qed

text \<open>
  Claim C6, as amended. When \<^verbatim>\<open>learn\<close> starts in a terminal state it performs no TD update
  and no policy refresh: if it returns, the agent is exactly as before. It does select an
  action there: every episode begins with one \<^verbatim>\<open>_choose_action(initial_state)\<close>, before the
  loop tests the state, so the random source is advanced once per episode and a raise of
  that draw is a raise of \<^verbatim>\<open>learn\<close>. It never fails to return.
\<close>

theorem learn_terminal_start:
  assumes t: "is_terminal_state (env ag) s0 = Inr True"
  shows "learn rt fuel (Suc n) s0 ag w =
           (case choose_action rt ag s0 w of
              Inl e \<Rightarrow> Some (Inl e)
            | Inr (A, w1) \<Rightarrow> learn rt fuel n s0 ag w1) \<and>
         learn rt fuel n s0 ag w \<noteq> None \<and>
         (\<forall>ag' w'. learn rt fuel n s0 ag w = Some (Inr (ag', w')) \<longrightarrow> ag' = ag)"
proof -
  have unfold: "learn rt fuel (Suc k) s0 ag u =
           (case choose_action rt ag s0 u of
              Inl e \<Rightarrow> Some (Inl e)
            | Inr (A, w1) \<Rightarrow> learn rt fuel k s0 ag w1)" for k u
    by (simp add: episode_loop_terminal [OF t] split: sum.splits prod.splits)
  have "learn rt fuel n s0 ag w \<noteq> None \<and>
         (\<forall>ag' w'. learn rt fuel n s0 ag w = Some (Inr (ag', w')) \<longrightarrow> ag' = ag)"
  proof (induction n arbitrary: w)
    case 0
    show ?case by simp
  next
    case (Suc n)
    show ?case
    proof (cases "choose_action rt ag s0 w")
      case (Inl e)
      have eq: "learn rt fuel (Suc n) s0 ag w = Some (Inl e)"
        by (subst unfold) (simp add: Inl)
      show ?thesis unfolding eq by simp
    next
      case (Inr r)
      obtain A w1 where r: "r = (A, w1)" by (cases r)
      have eq: "learn rt fuel (Suc n) s0 ag w = learn rt fuel n s0 ag w1"
        by (subst unfold) (simp add: Inr r)
      show ?thesis unfolding eq by (rule Suc.IH)
    qed
  qed
  with unfold show ?thesis by blast
qed

theorem learn_terminal_start_witness:
  "is_terminal_state (env (demo_agent SarsaAgent)) (1, 1) = Inr True \<and>
   choose_action demo_rt (demo_agent SarsaAgent) (1, 1) 0 = Inr (UP, 1) \<and>
   choose_action demo_rt (demo_agent SarsaAgent) (1, 1) 1 = Inr (LEFT, 2) \<and>
   learn demo_rt 7 (Suc (Suc 0)) (1, 1) (demo_agent SarsaAgent) 0 = Some (Inr (demo_agent SarsaAgent, 2))"
proof -
  let ?ag = "demo_agent SarsaAgent"
  have ch: "choose_action demo_rt ?ag (1, 1) 0 = Inr (UP, 1)"
    "choose_action demo_rt ?ag (1, 1) 1 = Inr (LEFT, 2)"
    by (simp_all add: choose_action_def demo_agent_fields demo_env_facts demo_agent_tables dict_get_def
        demo_choice)
  have t: "is_terminal_state (env ?ag) (1, 1) = Inr True"
    by (simp add: demo_agent_fields demo_env_facts)
  from learn_terminal_start [OF t, of demo_rt 7 "Suc 0" 0] ch(1)
  have 1: "learn demo_rt 7 (Suc (Suc 0)) (1, 1) ?ag 0 = learn demo_rt 7 (Suc 0) (1, 1) ?ag 1" by simp
  from learn_terminal_start [OF t, of demo_rt 7 0 1] ch(2)
  have 2: "learn demo_rt 7 (Suc 0) (1, 1) ?ag 1 = Some (Inr (?ag, 2))" by simp
  from 1 2 ch t show ?thesis by simp
qed

text \<open>
  Claim C7 as stated fails: with a terminal successor that has no legal actions, the
  Q-Learning step raises ValueError in \<^verbatim>\<open>_find_best_action\<close> instead of updating with a
  successor value of 0, and so does \<^verbatim>\<open>learn\<close>.
\<close>

theorem empty_successor_actions_raise:
  "is_terminal_state dead_end_env 0 = Inr False \<and>
   execute_action dead_end_env 0 ''GO'' 1 = Inr ((1, 0), 1) \<and>
   is_terminal_state dead_end_env 1 = Inr True \<and>
   get_possible_actions dead_end_env 1 = [] \<and>
   find_best_action demo_rt (dead_end_agent QLearningAgent) 1 = Inl ValueError \<and>
   inner_learn demo_rt (dead_end_agent QLearningAgent) 0 ''GO'' 1 = Inl ValueError \<and>
   learn demo_rt 1 1 0 (dead_end_agent QLearningAgent) 0 = Some (Inl ValueError)"
proof -
  let ?ag = "dead_end_agent QLearningAgent"
  have fb: "find_best_action demo_rt ?ag (Suc 0) = Inl ValueError"
    by (rule find_best_action_no_actions) (simp add: dead_end_facts)
  have ch: "choose_action demo_rt ?ag 0 w = Inr (''GO'', Suc w)" for w
    by (simp add: choose_action_def dead_end_facts dict_get_def demo_rt_def)
  have il: "inner_learn demo_rt ?ag 0 ''GO'' (Suc 0) = Inl ValueError"
    by (simp add: inner_learn_def qlearning_inner_learn_def dead_end_facts ch fb)
  have "learn demo_rt (Suc 0) (Suc 0) 0 ?ag 0 = Some (Inl ValueError)"
    by (simp add: ch dead_end_facts learn_step_def il)
  with fb il show ?thesis by (simp add: dead_end_facts)
qed

text \<open>
  Claim C7, as amended. NumPy's \<^verbatim>\<open>choice\<close> raises ValueError on an empty population. When a
  step from a non-terminal \<open>S\<close> returns with a terminal \<open>S_next\<close>, its TD update (and the
  policy refresh) has been performed and the loop then exits with the state after it:
  the loop tests \<open>S\<close> at the top of an iteration. Such a step returns only if
  \<open>S_next\<close> and every enumerated state have legal actions. If the successor has no legal
  actions, nothing is treated as 0: the step raises ValueError in the call that precedes
  the Q assignment, \<^verbatim>\<open>_choose_action(S_next)\<close> for SARSA and Expected SARSA and
  \<^verbatim>\<open>_find_best_action(S_next)\<close> for Q-Learning, and the loop raises it.
\<close>

theorem final_update_at_terminal_successor:
  assumes np: "\<forall>ps u. random_choice rt [] ps u = Inl ValueError"
    and nt: "is_terminal_state (env ag) S = Inr False"
  shows "(\<forall>S_next A_next ag' w'.
            learn_step rt ag S A w = Inr ((S_next, A_next), ag', w') \<and>
            is_terminal_state (env ag) S_next = Inr True \<longrightarrow>
            episode_loop rt (Suc fuel) ag S A w = Some (Inr (ag', w')) \<and>
            (\<exists>A1. td_updates ag' = td_updates ag @ [(S, A1)]) \<and>
            get_possible_actions (env ag) S_next \<noteq> [] \<and>
            (\<forall>s\<in>set (get_states (env ag)). get_possible_actions (env ag) s \<noteq> [])) \<and>
         (\<forall>S_next R w1.
            cls ag \<noteq> QLearningAgent \<and>
            execute_action (env ag) S A w = Inr ((S_next, R), w1) \<and>
            get_possible_actions (env ag) S_next = [] \<longrightarrow>
            choose_action rt ag S_next w1 = Inl ValueError \<and>
            inner_learn rt ag S A w = Inl ValueError \<and>
            episode_loop rt (Suc fuel) ag S A w = Some (Inl ValueError)) \<and>
         (\<forall>A1 w1 S_next R w2.
            cls ag = QLearningAgent \<and>
            choose_action rt ag S w = Inr (A1, w1) \<and>
            execute_action (env ag) S A1 w1 = Inr ((S_next, R), w2) \<and>
            get_possible_actions (env ag) S_next = [] \<longrightarrow>
            find_best_action rt ag S_next = Inl ValueError \<and>
            inner_learn rt ag S A w = Inl ValueError \<and>
            episode_loop rt (Suc fuel) ag S A w = Some (Inl ValueError))"
proof -
  have raise: "episode_loop rt (Suc fuel) ag S A w = Some (Inl ValueError)"
    if "inner_learn rt ag S A w = Inl ValueError"
    using that nt by (simp add: learn_step_def)
  have 1: "episode_loop rt (Suc fuel) ag S A w = Some (Inr (ag', w')) \<and>
            (\<exists>A1. td_updates ag' = td_updates ag @ [(S, A1)]) \<and>
            get_possible_actions (env ag) S_next \<noteq> [] \<and>
            (\<forall>s\<in>set (get_states (env ag)). get_possible_actions (env ag) s \<noteq> [])"
    if st: "learn_step rt ag S A w = Inr ((S_next, A_next), ag', w')"
      and t: "is_terminal_state (env ag) S_next = Inr True"
    for S_next A_next ag' w'
  proof -
    from learn_step_subject [OF st] obtain A1 v p where
      ag': "ag' = ag\<lparr>Q := (Q ag)((S, A1) \<mapsto> v), policy := p, td_updates := td_updates ag @ [(S, A1)]\<rparr>"
      by blast
    have e: "env ag' = env ag" and u: "td_updates ag' = td_updates ag @ [(S, A1)]"
      unfolding ag' by simp_all
    have "episode_loop rt (Suc fuel) ag S A w = episode_loop rt fuel ag' S_next A_next w'"
      using nt st by simp
    also have "\<dots> = Some (Inr (ag', w'))"
      by (rule episode_loop_terminal) (simp add: e t)
    finally have a: "episode_loop rt (Suc fuel) ag S A w = Some (Inr (ag', w'))" .
    from learn_step_Inr [OF st] obtain ag1 where
      il: "inner_learn rt ag S A w = Inr ((S_next, A_next), ag1, w')" by blast
    note b = inner_learn_successor_actions [OF np il]
    note c = learn_step_Inr_actions [OF st]
    from a u b c show ?thesis by blast
  qed
  have 2: "choose_action rt ag S_next w1 = Inl ValueError \<and>
            inner_learn rt ag S A w = Inl ValueError \<and>
            episode_loop rt (Suc fuel) ag S A w = Some (Inl ValueError)"
    if "cls ag \<noteq> QLearningAgent" "execute_action (env ag) S A w = Inr ((S_next, R), w1)"
      "get_possible_actions (env ag) S_next = []"
    for S_next R w1
    using choose_action_no_actions [OF np that(3)]
      inner_learn_no_successor_actions(1) [OF np that(3) that(1) that(2)] raise by simp
  have 3: "find_best_action rt ag S_next = Inl ValueError \<and>
            inner_learn rt ag S A w = Inl ValueError \<and>
            episode_loop rt (Suc fuel) ag S A w = Some (Inl ValueError)"
    if "cls ag = QLearningAgent" "choose_action rt ag S w = Inr (A1, w1)"
      "execute_action (env ag) S A1 w1 = Inr ((S_next, R), w2)"
      "get_possible_actions (env ag) S_next = []"
    for A1 w1 S_next R w2
    using find_best_action_no_actions [OF that(4)]
      inner_learn_no_successor_actions(2) [OF np that(4) that(1) that(2) that(3)] raise by simp
  from 1 2 3 show ?thesis by blast
qed

theorem final_update_at_terminal_successor_witness:
  "(\<forall>ps u. random_choice demo_rt [] ps u = Inl ValueError) \<and>
   is_terminal_state (env (demo_agent SarsaAgent)) (1, 0) = Inr False \<and>
   is_terminal_state (env (demo_agent SarsaAgent)) (1, 1) = Inr True \<and>
   (\<exists>ag'. learn_step demo_rt (demo_agent SarsaAgent) (1, 0) RIGHT 0 = Inr (((1, 1), UP), ag', 1) \<and>
      episode_loop demo_rt (Suc 0) (demo_agent SarsaAgent) (1, 0) RIGHT 0 = Some (Inr (ag', 1)) \<and>
      td_updates ag' = [((1, 0), RIGHT)]) \<and>
   get_possible_actions (env (demo_agent SarsaAgent)) (1, 1) \<noteq> [] \<and>
   is_terminal_state (env (dead_end_agent SarsaAgent)) 0 = Inr False \<and>
   cls (dead_end_agent SarsaAgent) \<noteq> QLearningAgent \<and>
   execute_action (env (dead_end_agent SarsaAgent)) 0 ''GO'' 1 = Inr ((1, 0), 1) \<and>
   get_possible_actions (env (dead_end_agent SarsaAgent)) 1 = [] \<and>
   choose_action demo_rt (dead_end_agent SarsaAgent) 1 1 = Inl ValueError \<and>
   inner_learn demo_rt (dead_end_agent SarsaAgent) 0 ''GO'' 1 = Inl ValueError \<and>
   episode_loop demo_rt (Suc 0) (dead_end_agent SarsaAgent) 0 ''GO'' 1 = Some (Inl ValueError) \<and>
   inner_learn demo_rt (dead_end_agent ExpectedSarsaAgent) 0 ''GO'' 1 = Inl ValueError \<and>
   cls (dead_end_agent QLearningAgent) = QLearningAgent \<and>
   choose_action demo_rt (dead_end_agent QLearningAgent) 0 1 = Inr (''GO'', 2) \<and>
   execute_action (env (dead_end_agent QLearningAgent)) 0 ''GO'' 2 = Inr ((1, 0), 2) \<and>
   find_best_action demo_rt (dead_end_agent QLearningAgent) 1 = Inl ValueError \<and>
   inner_learn demo_rt (dead_end_agent QLearningAgent) 0 ''GO'' 1 = Inl ValueError \<and>
   episode_loop demo_rt (Suc 0) (dead_end_agent QLearningAgent) 0 ''GO'' 1 = Some (Inl ValueError)"
proof -
  let ?ag = "demo_agent SarsaAgent"
  let ?sarsa = "dead_end_agent SarsaAgent"
  let ?expected = "dead_end_agent ExpectedSarsaAgent"
  let ?qlearning = "dead_end_agent QLearningAgent"
  have np: "\<forall>ps u. random_choice demo_rt [] ps u = Inl ValueError" by (simp add: demo_rt_def)
  have nt: "is_terminal_state (env ?ag) (1, 0) = Inr False"
    and t: "is_terminal_state (env ?ag) (1, 1) = Inr True"
    by (simp_all add: demo_agent_fields demo_env_facts)
  have "case learn_step demo_rt ?ag (1, 0) RIGHT 0 of
          Inl e \<Rightarrow> False
        | Inr (SA', ag', w') \<Rightarrow> SA' = ((1, 1), UP) \<and> w' = 1 \<and> td_updates ag' = [((1, 0), RIGHT)]"
    by code_simp
  then obtain ag' where st: "learn_step demo_rt ?ag (1, 0) RIGHT 0 = Inr (((1, 1), UP), ag', 1)"
    and u: "td_updates ag' = [((1, 0), RIGHT)]"
    by (auto split: sum.splits)
  from final_update_at_terminal_successor [OF np nt, of RIGHT 0 0] st t
  have a: "episode_loop demo_rt (Suc 0) ?ag (1, 0) RIGHT 0 = Some (Inr (ag', 1))"
    and b: "get_possible_actions (env ?ag) (1, 1) \<noteq> []"
    by blast+
  have dnt: "is_terminal_state (env (dead_end_agent c)) 0 = Inr False" for c
    by (simp add: dead_end_facts)
  have dem: "get_possible_actions (env (dead_end_agent c)) 1 = []" for c
    by (simp add: dead_end_facts)
  have dex: "execute_action (env (dead_end_agent c)) 0 ''GO'' u = Inr ((1, 0), u)" for c u
    by (simp add: dead_end_facts)
  have c1: "cls ?sarsa \<noteq> QLearningAgent" "cls ?expected \<noteq> QLearningAgent"
    and c2: "cls ?qlearning = QLearningAgent"
    by (simp_all add: dead_end_facts)
  from final_update_at_terminal_successor [OF np dnt, of SarsaAgent "''GO''" 1 0] c1(1) dex dem
  have s: "choose_action demo_rt ?sarsa 1 1 = Inl ValueError"
    "inner_learn demo_rt ?sarsa 0 ''GO'' 1 = Inl ValueError"
    "episode_loop demo_rt (Suc 0) ?sarsa 0 ''GO'' 1 = Some (Inl ValueError)"
    by blast+
  from final_update_at_terminal_successor [OF np dnt, of ExpectedSarsaAgent "''GO''" 1 0] c1(2) dex dem
  have x: "inner_learn demo_rt ?expected 0 ''GO'' 1 = Inl ValueError"
    by blast
  have ch: "choose_action demo_rt ?qlearning 0 1 = Inr (''GO'', 2)"
    by (simp add: choose_action_def dead_end_facts dict_get_def demo_rt_def)
  from final_update_at_terminal_successor [OF np dnt, of QLearningAgent "''GO''" 1 0] c2 ch dex dem
  have q: "find_best_action demo_rt ?qlearning 1 = Inl ValueError"
    "inner_learn demo_rt ?qlearning 0 ''GO'' 1 = Inl ValueError"
    "episode_loop demo_rt (Suc 0) ?qlearning 0 ''GO'' 1 = Some (Inl ValueError)"
    by blast+
  from np nt t st a u b dnt c1 dex dem s x c2 ch q show ?thesis by blast
qed




text \<open>
  Claim C9. Right after construction every enumerated pair has Q value 0 and probability
  \<open>1 / |A(s)|\<close>. After any sequence of \<^verbatim>\<open>learn\<close> calls that returns, every key that was never
  the target of a \<^verbatim>\<open>self.Q[(S, A)] += ...\<close> assignment (\<open>td_updates\<close> records the targets) has
  the Q value it had at construction, so 0 for an enumerated pair, and both tables have
  exactly the keys they had at construction: the enumerated pairs.
\<close>

theorem unvisited_pairs_keep_zero:
  assumes run: "learn_calls rt fuel calls (agent_init c e df al eps) w = Some (Inr (ag', w'))"
  shows "(\<forall>s\<in>set (get_states e). \<forall>a\<in>set (get_possible_actions e s).
            Q (agent_init c e df al eps) (s, a) = Some 0 \<and>
            policy (agent_init c e df al eps) (s, a) =
              Some (1 / real (length (get_possible_actions e s))) \<and>
            ((s, a) \<notin> set (td_updates ag') \<longrightarrow> Q ag' (s, a) = Some 0)) \<and>
         (\<forall>k. k \<notin> set (td_updates ag') \<longrightarrow> Q ag' k = Q (agent_init c e df al eps) k) \<and>
         dom (Q ag') = {(s, a). s \<in> set (get_states e) \<and> a \<in> set (get_possible_actions e s)} \<and>
         dom (policy ag') = {(s, a). s \<in> set (get_states e) \<and> a \<in> set (get_possible_actions e s)}"
proof -
  define ag0 where "ag0 = agent_init c e df al eps"
  define D where "D = {(s, a). s \<in> set (get_states e) \<and> a \<in> set (get_possible_actions e s)}"
  define P where "P = (\<lambda>ag :: ('a, 'b, 'c) agent.
      env ag = e \<and> dom (Q ag) = D \<and> dom (policy ag) = D \<and>
      (\<forall>k. k \<notin> set (td_updates ag) \<longrightarrow> Q ag k = Q ag0 k))"
  have init: "Q ag0 (s, a) = Some 0 \<and> policy ag0 (s, a) = Some (1 / real (length (get_possible_actions e s)))"
    if "s \<in> set (get_states e)" "a \<in> set (get_possible_actions e s)" for s a
    using that by (simp add: ag0_def agent_init_fields)
  have P0: "P ag0"
    unfolding P_def ag0_def D_def by (simp add: agent_init_domains agent_init_fields(2,6))
  have step: "P ag2" if p: "P ag1" and st: "learn_step rt ag1 S A u = Inr (SA', ag2, u')"
    for ag1 S A u SA' ag2 u'
  proof -
    from learn_step_subject [OF st] obtain A1 q v pl where q: "Q ag1 (S, A1) = Some q"
      and ag2: "ag2 = ag1\<lparr>Q := (Q ag1)((S, A1) \<mapsto> v), policy := pl,
                          td_updates := td_updates ag1 @ [(S, A1)]\<rparr>"
      and d: "dom pl = dom (policy ag1) \<union>
             {(s, a) | s a. s \<in> set (get_states (env ag1)) \<and> a \<in> set (get_possible_actions (env ag1) s)}"
      by blast
    from p have p1: "env ag1 = e" "dom (Q ag1) = D" "dom (policy ag1) = D"
      "\<And>k. k \<notin> set (td_updates ag1) \<Longrightarrow> Q ag1 k = Q ag0 k"
      unfolding P_def by blast+
    have f: "env ag2 = e" "Q ag2 = (Q ag1)((S, A1) \<mapsto> v)" "policy ag2 = pl"
      "td_updates ag2 = td_updates ag1 @ [(S, A1)]"
      unfolding ag2 by (simp_all add: p1(1))
    have "(S, A1) \<in> dom (Q ag1)" using q by (rule domI)
    then have dq: "dom (Q ag2) = D" unfolding f(2) using p1(2) by (simp add: insert_absorb)
    have dp: "dom (policy ag2) = D" unfolding f(3) d p1(1,3) by (auto simp: D_def)
    have fr: "\<forall>k. k \<notin> set (td_updates ag2) \<longrightarrow> Q ag2 k = Q ag0 k"
      unfolding f(2,4) using p1(4) by simp
    from f(1) dq dp fr show ?thesis unfolding P_def by simp
  qed
  from P0 run [folded ag0_def] have "P ag'"
    by (rule learn_calls_invariant [where P = P, rotated]) (rule step, assumption+)
  then have r: "dom (Q ag') = D" "dom (policy ag') = D"
    "\<And>k. k \<notin> set (td_updates ag') \<Longrightarrow> Q ag' k = Q ag0 k"
    unfolding P_def by blast+
  have "\<forall>s\<in>set (get_states e). \<forall>a\<in>set (get_possible_actions e s).
            Q ag0 (s, a) = Some 0 \<and>
            policy ag0 (s, a) = Some (1 / real (length (get_possible_actions e s))) \<and>
            ((s, a) \<notin> set (td_updates ag') \<longrightarrow> Q ag' (s, a) = Some 0)"
    using init r(3) by simp
  with r show ?thesis unfolding ag0_def D_def by simp
qed

theorem unvisited_pairs_keep_zero_witness:
  "(\<exists>ag'. learn_calls demo_rt 5 [(1, (0, 0))] (demo_agent SarsaAgent) 0 = Some (Inr (ag', 3)) \<and>
      td_updates ag' = [((0, 0), DOWN), ((1, 0), RIGHT)] \<and>
      Q ag' ((0, 0), DOWN) = Some (- 1 / 2) \<and>
      (0, 1) \<in> set (get_states demo_env) \<and> LEFT \<in> set (get_possible_actions demo_env (0, 1)) \<and>
      Q (demo_agent SarsaAgent) ((0, 1), LEFT) = Some 0 \<and>
      policy (demo_agent SarsaAgent) ((0, 1), LEFT) = Some (1 / 2) \<and>
      ((0, 1), LEFT) \<notin> set (td_updates ag') \<and>
      Q ag' ((0, 1), LEFT) = Some 0 \<and>
      dom (Q ag') = dom (Q (demo_agent SarsaAgent)) \<and>
      dom (policy ag') = dom (policy (demo_agent SarsaAgent)))"
proof -
  obtain ag' where run: "learn_calls demo_rt 5 [(1, (0, 0))] (demo_agent SarsaAgent) 0 = Some (Inr (ag', 3))"
    and u: "td_updates ag' = [((0, 0), DOWN), ((1, 0), RIGHT)]"
    and q: "Q ag' ((0, 0), DOWN) = Some (- 1 / 2)"
    using demo_sarsa_learn by (auto split: option.splits sum.splits)
  have m: "(0, 1) \<in> set (get_states demo_env)" "LEFT \<in> set (get_possible_actions demo_env (0, 1))"
    by (simp_all add: demo_env_facts)
  have nv: "((0, 1), LEFT) \<notin> set (td_updates ag')" by (simp add: u)
  note t = unvisited_pairs_keep_zero [OF run [unfolded demo_agent_def]]
  from t m nv have "Q (demo_agent SarsaAgent) ((0, 1), LEFT) = Some 0"
    "policy (demo_agent SarsaAgent) ((0, 1), LEFT) =
       Some (1 / real (length (get_possible_actions demo_env (0, 1))))"
    "Q ag' ((0, 1), LEFT) = Some 0"
    unfolding demo_agent_def by blast+
  moreover from t have "dom (Q ag') = dom (Q (demo_agent SarsaAgent))"
    "dom (policy ag') = dom (policy (demo_agent SarsaAgent))"
    unfolding demo_agent_def agent_init_domains by simp_all
  ultimately show ?thesis using run u q m nv by (simp add: demo_env_facts)
qed

text \<open>
  Claim C10. In a grid world built from a reward array with at least two rows or at least
  two columns, every state of the grid has a non-empty list of distinct legal actions,
  whatever the rewards are (so also where \<^verbatim>\<open>is_terminal_state\<close> holds: the list is the
  same after the reward array is replaced), and every state that \<^verbatim>\<open>execute_action\<close>
  returns has a non-empty list of legal actions as well. The list is a function of the
  grid's bounds and the state only.
\<close>

theorem grid_actions_never_empty:
  assumes init: "WindyGridWorld_init rs wnd = Inr g"
    and sh: "shape rs = Inr (n, m)"
    and big: "2 \<le> n \<or> 2 \<le> m"
  shows "(\<forall>state\<in>set (grid_get_states g).
            grid_get_possible_actions g state \<noteq> [] \<and>
            distinct (grid_get_possible_actions g state) \<and>
            (\<forall>rs'. grid_get_possible_actions (g\<lparr>rewards := rs'\<rparr>) state =
                    grid_get_possible_actions g state)) \<and>
         (\<forall>state action s' r.
            grid_execute_action g state action = Inr (s', r) \<longrightarrow>
            grid_get_possible_actions g s' \<noteq> [])"
proof -
  note f = init_fields [OF init sh]
  from shape_Inr [OF sh] have nm: "1 \<le> n" "0 \<le> m" by simp_all
  have big': "1 \<le> max_down g \<or> 1 \<le> max_right g" using big f(1,2) by auto
  have 1: "\<forall>state\<in>set (grid_get_states g). grid_get_possible_actions g state \<noteq> []"
  proof
    fix state assume "state \<in> set (grid_get_states g)"
    then obtain i j where st: "state = (i, j)" "0 \<le> i" "i \<le> max_down g" "0 \<le> j" "j \<le> max_right g"
      unfolding grid_states_set [OF init sh] by auto
    from grid_actions_nonempty [OF st(2-5) big']
    show "grid_get_possible_actions g state \<noteq> []" by (simp add: st(1))
  qed
  have 4: "\<forall>state action s' r.
            grid_execute_action g state action = Inr (s', r) \<longrightarrow>
            grid_get_possible_actions g s' \<noteq> []"
  proof (intro allI impI)
    fix state action s' r
    assume "grid_execute_action g state action = Inr (s', r)"
    from grid_successor_actions_nonempty [OF this _ _ big'] f(1,2) nm
    show "grid_get_possible_actions g s' \<noteq> []" by simp
  qed
  from 1 4 show ?thesis
    by (simp add: grid_actions_distinct grid_actions_ignore_rewards)
qed

theorem grid_actions_never_empty_witness:
  "(\<exists>g. WindyGridWorld_init R_example wind_example = Inr g \<and>
      shape R_example = Inr (3, 6) \<and> ((2::int) \<le> 3 \<or> (2::int) \<le> 6) \<and>
      (1, 4) \<in> set (grid_get_states g) \<and>
      grid_is_terminal_state g (1, 4) = Inr True \<and>
      grid_get_possible_actions g (1, 4) \<noteq> [] \<and>
      grid_execute_action g (2, 3) RIGHT = Inr ((1, 4), 0) \<and>
      grid_get_possible_actions g (1, 4) = [UP, DOWN, LEFT, RIGHT])"
proof -
  let ?g = "\<lparr>rewards = R_example, wind = wind_example,
          states = List.product [0 .. 2] [0 .. 5], max_down = 2, max_right = 5\<rparr>"
  have big: "(2::int) \<le> 3 \<or> (2::int) \<le> 6" by simp
  note t = grid_actions_never_empty [OF example_grid_facts(2) example_grid_facts(1) big]
  have mem: "(1, 4) \<in> set (grid_get_states ?g)" by (simp add: grid_get_states_def)
  have trm: "grid_is_terminal_state ?g (1, 4) = Inr True"
    by (simp add: grid_is_terminal_state_def rewards_at_def getitem_def R_example_def)
  have ex: "grid_execute_action ?g (2, 3) RIGHT = Inr ((1, 4), 0)"
    by (simp add: grid_execute_action_def rewards_at_def getitem_def R_example_def wind_example_def
        UP_def DOWN_def LEFT_def RIGHT_def)
  have acts: "grid_get_possible_actions ?g (1, 4) = [UP, DOWN, LEFT, RIGHT]"
    by (simp add: grid_get_possible_actions_def)
  from t mem have "grid_get_possible_actions ?g (1, 4) \<noteq> []" by blast
  with example_grid_facts big mem trm ex acts show ?thesis by blast
qed

end
